theory Spec2Isabelle
  imports Complex_Main "HOL-Library.Log_Nat"
begin

section \<open>The persistent image store (src/lib/database.ts)\<close>

text \<open>
  A \<open>File\<close> of the browser is its name, its MIME type, its modification time and its
  bytes; \<open>file_size\<close> is the \<open>size\<close> property. A \<open>Date\<close> is the number of milliseconds
  since the epoch.
\<close>

type_synonym date = int

record File =
  name :: string
  mime :: string
  lastModified :: int
  content :: "nat list"

definition file_size :: "File \<Rightarrow> nat" where
  "file_size f = length (content f)"

datatype image_format = Png | Jpeg

text \<open>
  \<open>ImageData\<close> is the object literal \<open>imageData\<close> that \<open>saveImage\<close> builds: every property
  of \<open>StoredImage\<close> except the key. An optional property that is \<open>undefined\<close> is \<open>None\<close>.
  A \<open>StoredImage\<close> is a row of the table: the same properties and the auto-incremented
  primary key \<open>id\<close> (here \<open>img_id\<close>).
\<close>

record ImageData =
  originalFile :: File
  processedFile :: "File option"
  fileName :: string
  lastPreset :: "string option"
  lastFormat :: "image_format option"
  createdAt :: date
  updatedAt :: date

record StoredImage = ImageData +
  img_id :: nat

text \<open>
  The table \<open>db.images\<close>: its rows in primary-key order, and the key generator of the
  \<open>++id\<close> schema, which hands out the next unused key.
\<close>

record ImageDatabase =
  images :: "StoredImage list"
  nextId :: nat

definition empty_db :: ImageDatabase where
  "empty_db = \<lparr>images = [], nextId = 1\<rparr>"

text \<open>What the storage engine guarantees of a table: keys ascend and were all handed out.\<close>

definition wf_db :: "ImageDatabase \<Rightarrow> bool" where
  "wf_db db \<longleftrightarrow>
     sorted_wrt (<) (map img_id (images db)) \<and> list_all (\<lambda>r. img_id r < nextId db) (images db)"

text \<open>\<open>db.images.where('fileName').equals(n).toArray()\<close>\<close>

definition where_fileName_equals :: "string \<Rightarrow> ImageDatabase \<Rightarrow> StoredImage list" where
  "where_fileName_equals n db = filter (\<lambda>r. fileName r = n) (images db)"

text \<open>
  \<open>db.images.update(key, changes)\<close> sets, on the row with that key, every property that
  \<open>changes\<close> lists. \<open>imageData\<close> lists all seven properties, also those whose value is
  \<open>undefined\<close>: Dexie removes such a property from the row, so that it reads \<open>undefined\<close>
  afterwards.
\<close>

definition apply_changes :: "ImageData \<Rightarrow> StoredImage \<Rightarrow> StoredImage" where
  "apply_changes d r =
     r\<lparr>originalFile := originalFile d, processedFile := processedFile d,
       fileName := fileName d, lastPreset := lastPreset d, lastFormat := lastFormat d,
       createdAt := createdAt d, updatedAt := updatedAt d\<rparr>"

definition table_update :: "nat \<Rightarrow> ImageData \<Rightarrow> ImageDatabase \<Rightarrow> ImageDatabase" where
  "table_update k d db =
     db\<lparr>images := map (\<lambda>r. if img_id r = k then apply_changes d r else r) (images db)\<rparr>"

text \<open>\<open>db.images.add(imageData)\<close> stores a new row under a fresh key and returns the key.\<close>

definition table_add :: "ImageData \<Rightarrow> ImageDatabase \<Rightarrow> nat \<times> ImageDatabase" where
  "table_add d db =
     (nextId db,
      db\<lparr>images := images db @
            [\<lparr>originalFile = originalFile d, processedFile = processedFile d,
              fileName = fileName d, lastPreset = lastPreset d, lastFormat = lastFormat d,
              createdAt = createdAt d, updatedAt = updatedAt d, img_id = nextId db\<rparr>],
         nextId := Suc (nextId db)\<rparr>)"

text \<open>\<open>imageStorage.saveImage\<close>; \<open>now\<close> is what \<open>new Date()\<close> reads.\<close>

definition saveImage ::
  "date \<Rightarrow> File \<Rightarrow> File option \<Rightarrow> string option \<Rightarrow> image_format option \<Rightarrow>
   ImageDatabase \<Rightarrow> nat \<times> ImageDatabase" where
  "saveImage now original processed preset fmt db =
     (let existingImages = where_fileName_equals (name original) db;
          imageData = \<lparr>originalFile = original, processedFile = processed,
                       fileName = name original, lastPreset = preset, lastFormat = fmt,
                       createdAt = (case existingImages of [] \<Rightarrow> now | e # _ \<Rightarrow> createdAt e),
                       updatedAt = now\<rparr>
      in case existingImages of
           e # _ \<Rightarrow> (img_id e, table_update (img_id e) imageData db)
         | [] \<Rightarrow> table_add imageData db)"

text \<open>\<open>imageStorage.getImages\<close>, \<open>getImage\<close>, \<open>deleteImage\<close>, \<open>clearAllImages\<close>\<close>

definition getImages :: "ImageDatabase \<Rightarrow> StoredImage list" where
  "getImages db = images db"

definition getImage :: "nat \<Rightarrow> ImageDatabase \<Rightarrow> StoredImage option" where
  "getImage k db = find (\<lambda>r. img_id r = k) (images db)"

definition deleteImage :: "nat \<Rightarrow> ImageDatabase \<Rightarrow> ImageDatabase" where
  "deleteImage k db = db\<lparr>images := filter (\<lambda>r. img_id r \<noteq> k) (images db)\<rparr>"

definition clearAllImages :: "ImageDatabase \<Rightarrow> ImageDatabase" where
  "clearAllImages db = db\<lparr>images := []\<rparr>"

text \<open>\<open>imageStorage.getStorageSize\<close>: the loop over the rows, adding the two sizes.\<close>

fun storage_loop :: "StoredImage list \<Rightarrow> nat \<Rightarrow> nat" where
  "storage_loop [] totalSize = totalSize"
| "storage_loop (img # rest) totalSize =
     storage_loop rest
       (case processedFile img of
          None \<Rightarrow> totalSize + file_size (originalFile img)
        | Some p \<Rightarrow> totalSize + file_size (originalFile img) + file_size p)"

definition getStorageSize :: "ImageDatabase \<Rightarrow> nat" where
  "getStorageSize db = storage_loop (images db) 0"

text \<open>
  \<open>imageStorage.cleanupOldImages\<close>. The cutoff is \<open>new Date()\<close>, which reads \<open>now\<close>, after
  \<open>setDate(getDate() - daysToKeep)\<close>. \<open>getDate\<close> and \<open>setDate\<close> work on local time: \<open>setDate\<close>
  takes the local time of the date, moves its day of the month, here back by \<open>daysToKeep\<close>
  days, keeps the time within the day, and converts the result from local time. So the
  local time moves back by \<open>daysToKeep\<close> times 86400000 ms. \<open>LocalTime\<close> and \<open>UTC\<close> are the
  two conversions of the time zone the browser runs in. \<open>bulkDelete\<close> removes the rows with
  the listed keys.
\<close>

record TimeZone =
  LocalTime :: "int \<Rightarrow> int"
  UTC :: "int \<Rightarrow> int"

definition msPerDay :: int where
  "msPerDay = 86400000"

definition cutoffDate :: "TimeZone \<Rightarrow> date \<Rightarrow> int \<Rightarrow> date" where
  "cutoffDate tz now daysToKeep = UTC tz (LocalTime tz now - daysToKeep * msPerDay)"

definition bulkDelete :: "nat list \<Rightarrow> ImageDatabase \<Rightarrow> ImageDatabase" where
  "bulkDelete ks db = db\<lparr>images := filter (\<lambda>r. img_id r \<notin> set ks) (images db)\<rparr>"

definition cleanupOldImages ::
  "TimeZone \<Rightarrow> date \<Rightarrow> int \<Rightarrow> ImageDatabase \<Rightarrow> nat \<times> ImageDatabase" where
  "cleanupOldImages tz now daysToKeep db =
     (let oldImages = filter (\<lambda>r. updatedAt r < cutoffDate tz now daysToKeep) (images db);
          idsToDelete = map img_id oldImages
      in (length idsToDelete, bulkDelete idsToDelete db))"

text \<open>
  A sequence of \<open>saveImage\<close> calls, one after the other (the caller awaits each call
  before the next), each with its own reading of the clock.
\<close>

record save_call =
  call_now :: date
  call_original :: File
  call_processed :: "File option"
  call_preset :: "string option"
  call_format :: "image_format option"

definition do_save :: "save_call \<Rightarrow> ImageDatabase \<Rightarrow> ImageDatabase" where
  "do_save c db =
     snd (saveImage (call_now c) (call_original c) (call_processed c) (call_preset c)
            (call_format c) db)"

fun run_saves :: "save_call list \<Rightarrow> ImageDatabase \<Rightarrow> ImageDatabase" where
  "run_saves [] db = db"
| "run_saves (c # cs) db = run_saves cs (do_save c db)"

text \<open>
  \<open>formatBytes\<close>, with \<open>decimals\<close> at its default 2 (no call passes another value).
  \<open>sizes_at\<close> is the read \<open>sizes[i]\<close>: past the end of the array it yields \<open>undefined\<close>,
  which the string concatenation prints as the word. \<open>toFixed_2\<close> is the number of
  hundredths that \<open>toFixed(2)\<close> prints (the nearest one, the larger of two equally near),
  and \<open>number_to_string\<close> prints it as \<open>parseFloat\<close> and the concatenation do: without
  trailing zeros. \<open>Math.log\<close> is read as the real logarithm.
\<close>

definition sizes :: "string list" where
  "sizes = [''Bytes'', ''KB'', ''MB'', ''GB'']"

definition unit_index :: "nat \<Rightarrow> nat" where
  "unit_index bytes = nat \<lfloor>ln (real bytes) / ln 1024\<rfloor>"

definition sizes_at :: "nat \<Rightarrow> string" where
  "sizes_at i = (if i < length sizes then sizes ! i else ''undefined'')"

definition toFixed_2 :: "real \<Rightarrow> nat" where
  "toFixed_2 v = nat \<lfloor>v * 100 + 1 / 2\<rfloor>"

definition digit_char :: "nat \<Rightarrow> char" where
  "digit_char d = ''0123456789'' ! d"

fun nat_to_string :: "nat \<Rightarrow> string" where
  "nat_to_string n =
     (if n < 10 then [digit_char n] else nat_to_string (n div 10) @ [digit_char (n mod 10)])"

declare nat_to_string.simps [simp del]

definition number_to_string :: "nat \<Rightarrow> string" where
  "number_to_string h =
     nat_to_string (h div 100) @
     (if h mod 100 = 0 then []
      else if h mod 10 = 0 then [CHR ''.'', digit_char (h mod 100 div 10)]
      else [CHR ''.'', digit_char (h mod 100 div 10), digit_char (h mod 10)])"

definition formatBytes :: "nat \<Rightarrow> string" where
  "formatBytes bytes =
     (if bytes = 0 then ''0 Bytes''
      else let i = unit_index bytes
           in number_to_string (toFixed_2 (real bytes / 1024 ^ i)) @ '' '' @ sizes_at i)"

text \<open>\<open>imageStorage.getStorageInfo\<close>\<close>

record StorageInfo =
  count :: nat
  totalSize :: nat
  formattedSize :: string

definition getStorageInfo :: "ImageDatabase \<Rightarrow> StorageInfo" where
  "getStorageInfo db =
     \<lparr>count = length (images db), totalSize = getStorageSize db,
      formattedSize = formatBytes (getStorageSize db)\<rparr>"

section \<open>Presets and the crop planner (src/components/EditModal.tsx)\<close>

text \<open>
  A \<open>PhotoPreset\<close>, without the two properties that only the dialog prints (\<open>label\<close> and
  \<open>description\<close>). \<open>maxFileSize\<close> is in KB and optional. The property \<open>id\<close> is
  \<open>preset_id\<close> here.
\<close>

record PhotoPreset =
  preset_id :: string
  width :: nat
  height :: nat
  minHeadWidth :: nat
  maxHeadWidth :: nat
  format :: image_format
  maxFileSize :: "nat option"

definition preset_none :: PhotoPreset where
  "preset_none = \<lparr>preset_id = ''none'', width = 0, height = 0, minHeadWidth = 0,
                  maxHeadWidth = 0, format = Png, maxFileSize = None\<rparr>"

definition preset_china_visa :: PhotoPreset where
  "preset_china_visa = \<lparr>preset_id = ''china-visa'', width = 420, height = 560,
                        minHeadWidth = 191, maxHeadWidth = 251, format = Jpeg,
                        maxFileSize = Some 120\<rparr>"

definition preset_us_passport :: PhotoPreset where
  "preset_us_passport = \<lparr>preset_id = ''us-passport'', width = 600, height = 600,
                         minHeadWidth = 330, maxHeadWidth = 420, format = Jpeg,
                         maxFileSize = Some 240\<rparr>"

definition preset_linkedin :: PhotoPreset where
  "preset_linkedin = \<lparr>preset_id = ''linkedin'', width = 400, height = 400,
                      minHeadWidth = 200, maxHeadWidth = 320, format = Jpeg,
                      maxFileSize = None\<rparr>"

definition photoPresets :: "PhotoPreset list" where
  "photoPresets = [preset_none, preset_china_visa, preset_us_passport, preset_linkedin]"

text \<open>
  A rectangle \<open>{x, y, width, height}\<close>: the crop area, and the bounding box of a detected
  face. Coordinates are JavaScript numbers, taken as real numbers here: the planner's
  arithmetic is read without rounding.
\<close>

record Rect =
  rect_x :: real
  rect_y :: real
  rect_width :: real
  rect_height :: real

text \<open>
  \<open>calculateCropArea\<close>. The image enters with its \<open>width\<close> and \<open>height\<close>; \<open>face\<close> is what
  \<open>detectFace\<close> returned: a bounding box, or \<open>None\<close> for its \<open>null\<close> (no detector, no face
  or a failure).
\<close>

definition calculateCropArea :: "nat \<Rightarrow> nat \<Rightarrow> PhotoPreset \<Rightarrow> Rect option \<Rightarrow> Rect option" where
  "calculateCropArea imgWidth imgHeight preset face =
     (if preset_id preset = ''none'' then None
      else
        let aspectRatio = real (width preset) / real (height preset);
            imgAspectRatio = real imgWidth / real imgHeight
        in if imgAspectRatio > aspectRatio
           then
             let cropHeight = real imgHeight;
                 cropWidth = cropHeight * aspectRatio;
                 cropX = (case face of
                            Some f \<Rightarrow>
                              let faceCenterX = rect_x f + rect_width f / 2
                              in max 0 (min (real imgWidth - cropWidth)
                                            (faceCenterX - cropWidth / 2))
                          | None \<Rightarrow> (real imgWidth - cropWidth) / 2);
                 cropY = 0
             in Some \<lparr>rect_x = cropX, rect_y = cropY, rect_width = cropWidth,
                      rect_height = cropHeight\<rparr>
           else
             let cropWidth = real imgWidth;
                 cropHeight = cropWidth / aspectRatio;
                 cropX = 0;
                 cropY = (case face of
                            Some f \<Rightarrow>
                              let faceCenterY = rect_y f + rect_height f / 2;
                                  idealFacePosition = cropHeight * 0.4
                              in max 0 (min (real imgHeight - cropHeight)
                                            (faceCenterY - idealFacePosition))
                          | None \<Rightarrow> (real imgHeight - cropHeight) / 2)
             in Some \<lparr>rect_x = cropX, rect_y = cropY, rect_width = cropWidth,
                      rect_height = cropHeight\<rparr>)"

section \<open>JavaScript numbers\<close>

text \<open>
  A JavaScript number is an IEEE 754 double, and every arithmetic operation rounds its exact
  result to the nearest double. A finite double is \<open>mant * 2 ^ expo\<close> with a mantissa of at
  most 53 bits. \<open>round_to_double m e\<close> is the double nearest to \<open>m * 2 ^ e\<close>, a tie going to
  the even mantissa (exponents are unbounded here; the numbers of the export loop lie
  between \<open>2 ^ - 53\<close> and 1 and those of the pixel effects are below \<open>2 ^ 17\<close> in
  magnitude, far from overflow and underflow).
\<close>

record js_number =
  mant :: int
  expo :: int

definition num_val :: "js_number \<Rightarrow> real" where
  "num_val a =
     (if 0 \<le> expo a then of_int (mant a) * 2 ^ nat (expo a)
      else of_int (mant a) / 2 ^ nat (- expo a))"

definition round_to_double :: "int \<Rightarrow> int \<Rightarrow> js_number" where
  "round_to_double m e =
     (if bitlen \<bar>m\<bar> \<le> 53 then \<lparr>mant = m, expo = e\<rparr>
      else
        let s = nat (bitlen \<bar>m\<bar> - 53);
            q = \<bar>m\<bar> div 2 ^ s;
            r = \<bar>m\<bar> mod 2 ^ s;
            q' = (if 2 * r < 2 ^ s then q
                  else if 2 ^ s < 2 * r then q + 1
                  else if even q then q else q + 1)
        in \<lparr>mant = sgn m * q', expo = e + int s\<rparr>)"

text \<open>\<open>a - b\<close> and \<open>a > b\<close> on doubles: the operands are brought to one exponent.\<close>

definition num_sub :: "js_number \<Rightarrow> js_number \<Rightarrow> js_number" where
  "num_sub a b =
     (let e = min (expo a) (expo b)
      in round_to_double (mant a * 2 ^ nat (expo a - e) - mant b * 2 ^ nat (expo b - e)) e)"

definition num_greater :: "js_number \<Rightarrow> js_number \<Rightarrow> bool" where
  "num_greater a b =
     (let e = min (expo a) (expo b)
      in mant a * 2 ^ nat (expo a - e) > mant b * 2 ^ nat (expo b - e))"

text \<open>\<open>a + b\<close> and \<open>a * b\<close> on doubles: the exact sum or product, rounded.\<close>

definition num_add :: "js_number \<Rightarrow> js_number \<Rightarrow> js_number" where
  "num_add a b =
     (let e = min (expo a) (expo b)
      in round_to_double (mant a * 2 ^ nat (expo a - e) + mant b * 2 ^ nat (expo b - e)) e)"

definition num_mul :: "js_number \<Rightarrow> js_number \<Rightarrow> js_number" where
  "num_mul a b = round_to_double (mant a * mant b) (expo a + expo b)"

text \<open>
  \<open>a / b\<close> for a divisor other than zero. The quotient of the mantissas is taken to at
  least 55 bits, and one more bit records whether the division left a remainder, so that
  rounding the result to 53 bits rounds the exact quotient. (A zero divisor gives an
  infinity in JavaScript, which is no \<open>js_number\<close>; the one place where the program can
  divide by zero treats that case separately.)
\<close>

definition num_div :: "js_number \<Rightarrow> js_number \<Rightarrow> js_number" where
  "num_div a b =
     (let p = \<bar>mant a\<bar>;
          q = \<bar>mant b\<bar>;
          k = nat (55 + bitlen q - bitlen p);
          n = (p * 2 ^ k) div q;
          r = (p * 2 ^ k) mod q;
          m = 2 * n + (if r = 0 then 0 else 1)
      in round_to_double (sgn (mant a) * sgn (mant b) * m) (expo a - expo b - int k - 1))"

text \<open>An integer as a double: exact below \<open>2 ^ 53\<close>.\<close>

definition num_of_int :: "int \<Rightarrow> js_number" where
  "num_of_int n = round_to_double n 0"

section \<open>The pixel effects of \<open>applyChanges\<close> (src/components/EditModal.tsx)\<close>

text \<open>
  \<open>imageData.data\<close> is a \<open>Uint8ClampedArray\<close>: the channels red, green, blue and alpha of
  one pixel after the other, each a natural number up to 255. Storing a number into it
  converts the number as \<open>toUint8Clamp\<close> does: at most 0 gives 0, at least 255 gives 255,
  and a number between is rounded to the nearest integer, a tie to the even one.
\<close>

definition toUint8Clamp :: "real \<Rightarrow> nat" where
  "toUint8Clamp v =
     (if v \<le> 0 then 0
      else if 255 \<le> v then 255
      else let f = \<lfloor>v\<rfloor>
           in nat (if v < of_int f + 1 / 2 then f
                   else if of_int f + 1 / 2 < v then f + 1
                   else if even f then f else f + 1))"

text \<open>
  The loop \<open>for (let i = 0; i < data.length; i += 4)\<close> of both effects: it stores a new value
  into \<open>data[i]\<close>, \<open>data[i + 1]\<close> and \<open>data[i + 2]\<close> and never touches \<open>data[i + 3]\<close>. A store
  past the end of the array does nothing.
\<close>

fun for_each_pixel :: "(nat \<Rightarrow> nat) \<Rightarrow> nat list \<Rightarrow> nat list" where
  "for_each_pixel f (r # g # b # al # rest) = f r # f g # f b # al # for_each_pixel f rest"
| "for_each_pixel f [r, g, b] = [f r, f g, f b]"
| "for_each_pixel f [r, g] = [f r, f g]"
| "for_each_pixel f [r] = [f r]"
| "for_each_pixel f [] = []"

text \<open>
  The intensity of an effect is the value of a range slider with \<open>min="0"\<close>, \<open>max="100"\<close>
  and the default step 1, read with \<open>Number(e.target.value)\<close>: an integer.

  \<open>case 'brightness'\<close>: \<open>data[i] = Math.min(255, data[i] * (brightnessValue / 50))\<close>. The
  quotient and the product are computed in doubles; the store into the array rounds.
\<close>

definition brightness :: "nat \<Rightarrow> nat list \<Rightarrow> nat list" where
  "brightness brightnessValue data =
     for_each_pixel
       (\<lambda>c. toUint8Clamp
              (min 255
                 (num_val (num_mul (num_of_int (int c))
                             (num_div (num_of_int (int brightnessValue)) (num_of_int 50))))))
       data"

text \<open>
  \<open>case 'contrast'\<close>:
  \<open>const factor = (259 * (contrastValue + 255)) / (255 * (259 - contrastValue))\<close>, then
  \<open>data[i] = factor * (data[i] - 128) + 128\<close>, every operation in doubles. When the
  divisor is zero the factor is \<open>Infinity\<close> (the dividend is positive): then a channel above
  128 gives \<open>Infinity\<close>, stored as 255, a channel below 128 gives \<open>-Infinity\<close>, stored as 0,
  and the channel 128 gives \<open>NaN\<close>, stored as 0.
\<close>

definition contrast_divisor :: "nat \<Rightarrow> js_number" where
  "contrast_divisor contrastValue =
     num_mul (num_of_int 255) (num_sub (num_of_int 259) (num_of_int (int contrastValue)))"

definition contrast_factor :: "nat \<Rightarrow> js_number" where
  "contrast_factor contrastValue =
     num_div (num_mul (num_of_int 259) (num_add (num_of_int (int contrastValue)) (num_of_int 255)))
       (contrast_divisor contrastValue)"

definition contrast :: "nat \<Rightarrow> nat list \<Rightarrow> nat list" where
  "contrast contrastValue data =
     (if mant (contrast_divisor contrastValue) = 0
      then for_each_pixel (\<lambda>c. if 128 < c then 255 else 0) data
      else for_each_pixel
             (\<lambda>c. toUint8Clamp
                    (num_val (num_add (num_mul (contrast_factor contrastValue)
                                         (num_sub (num_of_int (int c)) (num_of_int 128)))
                                (num_of_int 128))))
             data)"

section \<open>The size-budgeted JPEG export of \<open>applyChanges\<close> (src/components/EditModal.tsx)\<close>

text \<open>
  The quality is a JavaScript number, and the loop's count depends on how \<open>quality -= 0.1\<close>
  rounds.
\<close>

text \<open>The literals \<open>0.9\<close> and \<open>0.1\<close>: the doubles nearest to 9/10 and to 1/10.\<close>

definition num_0_9 :: js_number where
  "num_0_9 = \<lparr>mant = 8106479329266893, expo = - 53\<rparr>"

definition num_0_1 :: js_number where
  "num_0_1 = \<lparr>mant = 7205759403792794, expo = - 56\<rparr>"

text \<open>
  The JPEG branch of the export. \<open>toDataURL\<close> is \<open>canvas.toDataURL('image/jpeg', quality)\<close> on
  the composited canvas: the encoder of the browser, a parameter here. The loop state is
  \<open>dataUrl\<close>, \<open>quality\<close> and \<open>attempts\<close>; the number of encodings made so far is
  \<open>attempts + 1\<close>, the first one being made before the loop.
\<close>

function quality_loop ::
  "(js_number \<Rightarrow> string) \<Rightarrow> nat \<Rightarrow> string \<Rightarrow> js_number \<Rightarrow> nat \<Rightarrow> string \<times> js_number \<times> nat" where
  "quality_loop toDataURL targetSize dataUrl quality attempts =
     (if real (length dataUrl) * 0.75 > real targetSize \<and> num_greater quality num_0_1 \<and>
         attempts < 10
      then let quality' = num_sub quality num_0_1
           in quality_loop toDataURL targetSize (toDataURL quality') quality' (attempts + 1)
      else (dataUrl, quality, attempts))"
  by pat_completeness auto
termination
  by (relation "measure (\<lambda>(toDataURL, targetSize, dataUrl, quality, attempts). 10 - attempts)")
    auto

declare quality_loop.simps [simp del]

text \<open>
  \<open>maxKB\<close> is the preset's \<open>maxFileSize\<close>, in KB; \<open>if (preset.maxFileSize)\<close> skips the loop
  when the property is absent or 0.
\<close>

definition export_jpeg :: "(js_number \<Rightarrow> string) \<Rightarrow> nat option \<Rightarrow> string" where
  "export_jpeg toDataURL maxKB =
     (let quality = num_0_9;
          dataUrl = toDataURL quality
      in case maxKB of
           None \<Rightarrow> dataUrl
         | Some kb \<Rightarrow>
             if kb = 0 then dataUrl
             else let targetSize = kb * 1024
                  in fst (quality_loop toDataURL targetSize dataUrl quality 0))"

text \<open>
  The export: JPEG when a preset is selected and its format is JPEG, PNG otherwise.
  \<open>toPng\<close> is the result of \<open>canvas.toDataURL('image/png')\<close>.
\<close>

definition export_dataUrl ::
  "(js_number \<Rightarrow> string) \<Rightarrow> string \<Rightarrow> PhotoPreset option \<Rightarrow> string" where
  "export_dataUrl toDataURL toPng preset =
     (case preset of
        None \<Rightarrow> toPng
      | Some p \<Rightarrow> if format p = Jpeg then export_jpeg toDataURL (maxFileSize p) else toPng)"

text \<open>The quality of the encoding after \<open>k\<close> passes of the loop.\<close>

primrec quality_at :: "nat \<Rightarrow> js_number" where
  "quality_at 0 = num_0_9"
| "quality_at (Suc k) = num_sub (quality_at k) num_0_1"

section \<open>Uploads: resize, then persist (the application component)\<close>

text \<open>
  What the browser and the background-removal library do for \<open>onDrop\<close>. \<open>decode\<close> is the
  loading of a file into an \<open>Image\<close>: the width and height on \<open>onload\<close>, \<open>None\<close> on
  \<open>onerror\<close>. \<open>has_context\<close> tells whether \<open>getContext('2d')\<close> gives a context. \<open>toBlob\<close> is
  \<open>canvas.toBlob\<close> with a MIME type and a quality on a canvas of the given size, onto
  which the file's image was drawn over the whole area; \<open>None\<close> is the \<open>null\<close> blob.
  \<open>processImages\<close> is the library call on one file: its first result, or \<open>None\<close> when it
  throws or returns nothing. \<open>clock k\<close> is what the \<open>k\<close>-th \<open>new Date()\<close> reads.
\<close>

record Canvas =
  canvas_width :: nat
  canvas_height :: nat
  drawn :: File

record Browser =
  decode :: "File \<Rightarrow> (nat \<times> nat) option"
  has_context :: bool
  toBlob :: "Canvas \<Rightarrow> string \<Rightarrow> js_number \<Rightarrow> nat list option"
  processImages :: "File \<Rightarrow> File option"
  clock :: "nat \<Rightarrow> date"

text \<open>\<open>Math.round\<close> on a number that is not negative: the nearest integer, a tie going up.\<close>

definition Math_round :: "real \<Rightarrow> nat" where
  "Math_round v = nat \<lfloor>v + 1 / 2\<rfloor>"

text \<open>\<open>resizeImageForProcessing\<close>; every call leaves \<open>maxHeight\<close> at its default 512.\<close>

definition resizeImageForProcessing :: "Browser \<Rightarrow> File \<Rightarrow> nat \<Rightarrow> File" where
  "resizeImageForProcessing env file maxHeight =
     (case decode env file of
        None \<Rightarrow> file
      | Some (imgWidth, imgHeight) \<Rightarrow>
          let aspectRatio = real imgWidth / real imgHeight;
              (newWidth, newHeight) =
                (if imgHeight > maxHeight
                 then (Math_round (real maxHeight * aspectRatio), maxHeight)
                 else (imgWidth, imgHeight))
          in if \<not> has_context env then file
             else (case toBlob env \<lparr>canvas_width = newWidth, canvas_height = newHeight,
                                     drawn = file\<rparr> (mime file) num_0_9 of
                     None \<Rightarrow> file
                   | Some blob \<Rightarrow> \<lparr>name = name file, mime = mime file,
                                   lastModified = lastModified file, content = blob\<rparr>))"

text \<open>
  The loop \<open>for (const image of newImages)\<close> of \<open>onDrop\<close>: the resized file is saved, then
  processed, and saved again with the result. \<open>t\<close> counts the readings of the clock.
\<close>

fun persist_loop :: "Browser \<Rightarrow> File list \<Rightarrow> nat \<Rightarrow> ImageDatabase \<Rightarrow> ImageDatabase" where
  "persist_loop env [] t db = db"
| "persist_loop env (file # rest) t db =
     (let db1 = snd (saveImage (clock env t) file None None None db)
      in case processImages env file of
           None \<Rightarrow> persist_loop env rest (t + 1) db1
         | Some result \<Rightarrow>
             persist_loop env rest (t + 2)
               (snd (saveImage (clock env (t + 1)) file (Some result) None None db1)))"

text \<open>
  \<open>onDrop\<close>, as far as the store is concerned. \<open>model_ready\<close> is false when this is the first
  drop and the model fails to initialise: \<open>onDrop\<close> then returns before the loop.
\<close>

definition onDrop ::
  "Browser \<Rightarrow> bool \<Rightarrow> File list \<Rightarrow> nat \<Rightarrow> ImageDatabase \<Rightarrow> ImageDatabase" where
  "onDrop env model_ready acceptedFiles t db =
     (let resizedFiles = map (\<lambda>file. resizeImageForProcessing env file 512) acceptedFiles
      in if \<not> model_ready then db else persist_loop env resizedFiles t db)"

section \<open>Example data\<close>

text \<open>Example files, rows and tables.\<close>

definition file_a :: File where
  "file_a = \<lparr>name = ''a.jpg'', mime = ''image/jpeg'', lastModified = 0, content = [1, 2, 3]\<rparr>"

definition file_c :: File where
  "file_c = \<lparr>name = ''c.png'', mime = ''image/png'', lastModified = 7, content = [9, 9, 9, 9]\<rparr>"

definition file_a_cut :: File where
  "file_a_cut = \<lparr>name = ''a.jpg'', mime = ''image/png'', lastModified = 5, content = [4, 5]\<rparr>"

definition row_a :: StoredImage where
  "row_a = \<lparr>originalFile = file_a, processedFile = Some file_a_cut, fileName = ''a.jpg'',
            lastPreset = Some ''linkedin'', lastFormat = Some Jpeg, createdAt = 1000,
            updatedAt = 1500, img_id = 1\<rparr>"

definition db_a :: ImageDatabase where
  "db_a = \<lparr>images = [row_a], nextId = 2\<rparr>"

definition call_1 :: save_call where
  "call_1 = \<lparr>call_now = 1000, call_original = file_a, call_processed = None,
             call_preset = None, call_format = None\<rparr>"

definition call_2 :: save_call where
  "call_2 = \<lparr>call_now = 1500, call_original = file_a, call_processed = Some file_a_cut,
             call_preset = Some ''linkedin'', call_format = Some Jpeg\<rparr>"

definition row_b :: StoredImage where
  "row_b = \<lparr>originalFile = file_a_cut, processedFile = None, fileName = ''b.png'',
            lastPreset = None, lastFormat = None, createdAt = 2592000000,
            updatedAt = 2592000000, img_id = 2\<rparr>"

definition db_ab :: ImageDatabase where
  "db_ab = \<lparr>images = [row_a, row_b], nextId = 3\<rparr>"

text \<open>
  Two time zones: one without offset, and New York around 10 March 2024, when its offset
  went from five to four hours behind UTC at 07:00 UTC, 02:00 local time. A store with one
  row last written on 19 February 2024 at 12:30 UTC.
\<close>

definition utc_zone :: TimeZone where
  "utc_zone = \<lparr>LocalTime = (\<lambda>t. t), UTC = (\<lambda>t. t)\<rparr>"

definition new_york_zone :: TimeZone where
  "new_york_zone =
     \<lparr>LocalTime = (\<lambda>t. if t < 1710054000000 then t - 18000000 else t - 14400000),
      UTC = (\<lambda>t. if t < 1710036000000 then t + 18000000 else t + 14400000)\<rparr>"

definition db_february :: ImageDatabase where
  "db_february = \<lparr>images = [row_a\<lparr>updatedAt := 1708345800000\<rparr>], nextId = 2\<rparr>"

text \<open>A store that holds one file of 1024^4 bytes.\<close>

definition file_tb :: File where
  "file_tb = \<lparr>name = ''big.png'', mime = ''image/png'', lastModified = 0,
              content = replicate 1099511627776 0\<rparr>"

definition db_tb :: ImageDatabase where
  "db_tb = snd (saveImage 1000 file_tb None None None empty_db)"

text \<open>Example face boxes.\<close>

definition face_1 :: Rect where
  "face_1 = \<lparr>rect_x = 300, rect_y = 120, rect_width = 100, rect_height = 100\<rparr>"

definition face_2 :: Rect where
  "face_2 = \<lparr>rect_x = 250, rect_y = 300, rect_width = 100, rect_height = 100\<rparr>"

text \<open>Two example pixels.\<close>

definition two_pixels :: "nat list" where
  "two_pixels = [10, 200, 255, 128, 1, 3, 130, 0]"

text \<open>
  One pixel whose red channel at brightness 7 and whose green channel at brightness 35 is
  an exact tie in real arithmetic (10.5 and 31.5), but not in doubles.
\<close>

definition tie_pixels :: "nat list" where
  "tie_pixels = [75, 45, 0, 255]"

text \<open>An encoder whose every output is 200000 characters long, whatever the quality.\<close>

definition big_encoder :: "js_number \<Rightarrow> string" where
  "big_encoder q = replicate 200000 CHR ''A''"

text \<open>
  An example browser: every file decodes to an image of 1000 by 2000 pixels, and \<open>toBlob\<close>
  yields two bytes that record the size of the canvas.
\<close>

definition example_browser :: Browser where
  "example_browser =
     \<lparr>decode = (\<lambda>f. Some (1000, 2000)), has_context = True,
      toBlob = (\<lambda>c ty q. Some [canvas_width c, canvas_height c]),
      processImages = (\<lambda>f. None), clock = (\<lambda>k. int k)\<rparr>"

section \<open>Properties of the store\<close>

subsection \<open>Keys identify rows\<close>

lemma ids_inj:
  assumes "sorted_wrt (<) (map img_id rs)" "r \<in> set rs" "e \<in> set rs" "img_id r = img_id e"
  shows "r = e"
proof -
  have "distinct (map img_id rs)"
    using assms(1) by (simp add: strict_sorted_iff)
  then have "inj_on img_id (set rs)"
    by (simp add: distinct_map)
  with assms(2-4) show ?thesis
    by (auto dest: inj_onD)
qed

lemma update_only_row:
  assumes "sorted_wrt (<) (map img_id rs)" "e \<in> set rs"
  shows "map (\<lambda>r. if img_id r = img_id e then apply_changes d r else r) rs
         = map (\<lambda>r. if r = e then apply_changes d e else r) rs"
  using ids_inj[OF assms(1) _ assms(2)] by (intro map_cong) auto

lemma find_map_update:
  assumes "sorted_wrt (<) (map img_id rs)" "r \<in> set rs"
  shows "find (\<lambda>x. img_id x = img_id r)
           (map (\<lambda>x. if img_id x = img_id r then apply_changes d x else x) rs)
         = Some (apply_changes d r)"
  using assms by (induction rs) (auto simp: apply_changes_def)

lemma find_map_other:
  assumes "k \<noteq> j"
  shows "find (\<lambda>x. img_id x = k) (map (\<lambda>x. if img_id x = j then apply_changes d x else x) rs)
         = find (\<lambda>x. img_id x = k) rs"
  using assms by (induction rs) (auto simp: apply_changes_def)

lemma img_id_apply_changes [simp]: "img_id (apply_changes d r) = img_id r"
  by (simp add: apply_changes_def)

lemma map_img_id_update:
  "map img_id (map (\<lambda>r. if img_id r = k then apply_changes d r else r) rs) = map img_id rs"
  by (induction rs) auto

subsection \<open>Saving under a name that is already stored\<close>

text \<open>
  Claim C1, as the code has it: when the name of the saved file matches a stored row, the
  first such row \<open>e\<close> gets the call's four arguments as its original file, processed file,
  last preset and last format (an argument that was not supplied is stored as absent, it
  does not keep the old value), its \<open>updatedAt\<close> becomes \<open>now\<close>, and its key, its name and
  its \<open>createdAt\<close> stay. The key of \<open>e\<close> is returned, every other row is untouched and no
  key is handed out.
\<close>

theorem saveImage_existing_overwrites:
  assumes wf: "wf_db db"
    and ex: "where_fileName_equals (name f) db = e # es"
  shows "fst (saveImage now f p lp lf db) = img_id e \<and>
         getImage (img_id e) (snd (saveImage now f p lp lf db)) =
           Some (e\<lparr>originalFile := f, processedFile := p, lastPreset := lp, lastFormat := lf,
                   updatedAt := now\<rparr>) \<and>
         (\<forall>k. k \<noteq> img_id e \<longrightarrow>
              getImage k (snd (saveImage now f p lp lf db)) = getImage k db) \<and>
         map img_id (images (snd (saveImage now f p lp lf db))) = map img_id (images db) \<and>
         nextId (snd (saveImage now f p lp lf db)) = nextId db"
proof -
  have "e \<in> set (filter (\<lambda>r. fileName r = name f) (images db))"
    using ex by (simp add: where_fileName_equals_def)
  then have mem: "e \<in> set (images db)" and nm: "fileName e = name f"
    by auto
  have srt: "sorted_wrt (<) (map img_id (images db))"
    using wf by (simp add: wf_db_def)
  let ?d = "\<lparr>originalFile = f, processedFile = p, fileName = name f, lastPreset = lp,
             lastFormat = lf, createdAt = createdAt e, updatedAt = now\<rparr>"
  have sv: "saveImage now f p lp lf db = (img_id e, table_update (img_id e) ?d db)"
    by (simp add: saveImage_def ex)
  have row: "apply_changes ?d e =
               e\<lparr>originalFile := f, processedFile := p, lastPreset := lp, lastFormat := lf,
                 updatedAt := now\<rparr>"
    using nm by (simp add: apply_changes_def)
  show ?thesis
    unfolding sv
    using find_map_update[OF srt mem, of ?d] row
    by (simp add: getImage_def table_update_def find_map_other map_img_id_update)
qed

text \<open>The example table \<open>db_a\<close> is what two saves of \<open>a.jpg\<close> leave in an empty store.\<close>

lemma db_a_reached:
  "db_a = snd (saveImage 1500 file_a (Some file_a_cut) (Some ''linkedin'') (Some Jpeg)
                 (snd (saveImage 1000 file_a None None None empty_db)))"
  by (simp add: db_a_def row_a_def saveImage_def where_fileName_equals_def empty_db_def
      table_add_def table_update_def apply_changes_def file_a_def)

theorem saveImage_existing_overwrites_witness:
  "wf_db db_a \<and> where_fileName_equals (name file_a) db_a = [row_a] \<and>
   fst (saveImage 2000 file_a None None None db_a) = 1 \<and>
   getImage 1 (snd (saveImage 2000 file_a None None None db_a)) =
     Some (row_a\<lparr>processedFile := None, lastPreset := None, lastFormat := None,
                 updatedAt := 2000\<rparr>)"
proof -
  have wf: "wf_db db_a"
    by (simp add: wf_db_def db_a_def row_a_def)
  have ex: "where_fileName_equals (name file_a) db_a = row_a # []"
    by (simp add: where_fileName_equals_def db_a_def row_a_def file_a_def)
  have id1: "img_id row_a = 1" "originalFile row_a = file_a"
    by (simp_all add: row_a_def)
  show ?thesis
    using saveImage_existing_overwrites[OF wf ex, of 2000 None None None] wf ex id1
    by simp
qed

text \<open>
  Claim C1 as stated fails: the row of \<open>a.jpg\<close> holds a processed file, a preset and a
  format; a save of \<open>a.jpg\<close> that supplies none of the three leaves all three absent.
\<close>

theorem saveImage_merge_counterexample:
  "where_fileName_equals (name file_a) db_a = [row_a] \<and>
   processedFile row_a = Some file_a_cut \<and> lastPreset row_a = Some ''linkedin'' \<and>
   lastFormat row_a = Some Jpeg \<and>
   map processedFile (images (snd (saveImage 2000 file_a None None None db_a))) = [None] \<and>
   map lastPreset (images (snd (saveImage 2000 file_a None None None db_a))) = [None] \<and>
   map lastFormat (images (snd (saveImage 2000 file_a None None None db_a))) = [None]"
  by (simp add: db_a_def row_a_def saveImage_def where_fileName_equals_def
      table_update_def apply_changes_def file_a_def)

subsection \<open>One row per name\<close>

lemma wf_db_saveImage:
  assumes "wf_db db"
  shows "wf_db (snd (saveImage now f p lp lf db))"
proof (cases "where_fileName_equals (name f) db")
  case Nil
  have "sorted_wrt (<) (map img_id (images db) @ [nextId db])"
    using assms by (auto simp: wf_db_def sorted_wrt_append list_all_iff)
  moreover have "list_all (\<lambda>r. img_id r < Suc (nextId db)) (images db)"
    using assms by (auto simp: wf_db_def list_all_iff)
  ultimately show ?thesis
    by (simp add: saveImage_def Nil table_add_def wf_db_def)
next
  case (Cons e es)
  let ?db' = "snd (saveImage now f p lp lf db)"
  have ids: "map img_id (images ?db') = map img_id (images db)"
    by (simp add: saveImage_def Cons table_update_def map_img_id_update del: map_map)
  have nxt: "nextId ?db' = nextId db"
    by (simp add: saveImage_def Cons table_update_def)
  have "list_all (\<lambda>r. img_id r < nextId db) (images db)"
    using assms by (simp add: wf_db_def)
  then have "list_all (\<lambda>k. k < nextId db) (map img_id (images db))"
    by (simp add: list_all_iff)
  then have "list_all (\<lambda>k. k < nextId db) (map img_id (images ?db'))"
    by (simp only: ids)
  then have "list_all (\<lambda>r. img_id r < nextId ?db') (images ?db')"
    by (simp add: list_all_iff nxt)
  moreover have "sorted_wrt (<) (map img_id (images ?db'))"
    using assms by (simp only: ids wf_db_def)
  ultimately show ?thesis
    by (simp only: wf_db_def)
qed

lemma names_saveImage:
  assumes "wf_db db"
  shows "map fileName (images (snd (saveImage now f p lp lf db))) =
           (if name f \<in> fileName ` set (images db) then map fileName (images db)
            else map fileName (images db) @ [name f])"
proof (cases "where_fileName_equals (name f) db")
  case Nil
  then have "name f \<notin> fileName ` set (images db)"
    by (auto simp: where_fileName_equals_def filter_empty_conv)
  then show ?thesis
    by (simp add: saveImage_def Nil table_add_def)
next
  case (Cons e es)
  then have "e \<in> set (filter (\<lambda>r. fileName r = name f) (images db))"
    by (simp add: where_fileName_equals_def)
  then have mem: "e \<in> set (images db)" and nm: "fileName e = name f"
    by auto
  have srt: "sorted_wrt (<) (map img_id (images db))"
    using assms by (simp add: wf_db_def)
  have "name f \<in> fileName ` set (images db)"
    using mem nm by force
  moreover have "map fileName (map (\<lambda>r. if r = e then apply_changes d e else r) (images db))
                 = map fileName (images db)" if "fileName d = name f" for d
    using that nm by (induction "images db") (auto simp: apply_changes_def)
  ultimately show ?thesis
    by (simp add: saveImage_def Cons table_update_def update_only_row[OF srt mem]
        del: map_map)
qed

lemma distinct_names_saveImage:
  assumes "wf_db db" "distinct (map fileName (images db))"
  shows "distinct (map fileName (images (snd (saveImage now f p lp lf db))))"
  using assms(2) by (simp add: names_saveImage[OF assms(1)])

lemma filter_key_at_most_one:
  assumes "distinct (map g xs)" "filter (\<lambda>x. g x = n) xs = e # es"
  shows "es = []"
  using assms
proof (induction xs arbitrary: e es)
  case Nil
  then show ?case by simp
next
  case (Cons x xs)
  show ?case
  proof (cases "g x = n")
    case True
    have "g x \<notin> g ` set xs"
      using Cons.prems(1) by simp
    then have "g y \<noteq> n" if "y \<in> set xs" for y
      using that True by blast
    then have "filter (\<lambda>x. g x = n) xs = []"
      by (simp add: filter_empty_conv)
    with Cons.prems(2) True show ?thesis by simp
  next
    case False
    with Cons show ?thesis by simp
  qed
qed

lemma saveImage_created_step:
  assumes wf: "wf_db db" and dn: "distinct (map fileName (images db))"
  shows "map createdAt (where_fileName_equals (name f) (snd (saveImage now f p lp lf db))) =
           [case where_fileName_equals (name f) db of [] \<Rightarrow> now | e # _ \<Rightarrow> createdAt e]"
proof (cases "where_fileName_equals (name f) db")
  case Nil
  then show ?thesis
    by (simp add: saveImage_def table_add_def where_fileName_equals_def)
next
  case (Cons e es)
  then have es: "es = []"
    using filter_key_at_most_one[OF dn] by (simp add: where_fileName_equals_def)
  have "e \<in> set (filter (\<lambda>r. fileName r = name f) (images db))"
    using Cons by (simp add: where_fileName_equals_def)
  then have mem: "e \<in> set (images db)" and nm: "fileName e = name f"
    by auto
  have srt: "sorted_wrt (<) (map img_id (images db))"
    using wf by (simp add: wf_db_def)
  let ?d = "\<lparr>originalFile = f, processedFile = p, fileName = name f, lastPreset = lp,
             lastFormat = lf, createdAt = createdAt e, updatedAt = now\<rparr>"
  let ?g = "\<lambda>r. if r = e then apply_changes ?d e else r"
  have same: "fileName (?g r) = fileName r" for r
    using nm by (simp add: apply_changes_def)
  have "filter (\<lambda>r. fileName r = name f) (map ?g (images db)) =
          map ?g (filter (\<lambda>r. fileName r = name f) (images db))"
    by (simp only: filter_map o_def same)
  also have "\<dots> = [apply_changes ?d e]"
    using Cons es by (simp add: where_fileName_equals_def)
  finally have flt: "filter (\<lambda>r. fileName r = name f) (map ?g (images db)) =
                       [apply_changes ?d e]" .
  have sv: "saveImage now f p lp lf db = (img_id e, table_update (img_id e) ?d db)"
    by (simp add: saveImage_def Cons)
  have "images (table_update (img_id e) ?d db) = map ?g (images db)"
    by (simp add: table_update_def update_only_row[OF srt mem, of ?d])
  with flt have "where_fileName_equals (name f) (snd (saveImage now f p lp lf db)) =
                  [apply_changes ?d e]"
    by (simp only: sv snd_conv where_fileName_equals_def)
  then show ?thesis
    by (simp add: Cons apply_changes_def)
qed

lemma run_saves_keeps_created:
  assumes "wf_db db" "distinct (map fileName (images db))"
    and "\<forall>c \<in> set cs. name (call_original c) = n"
    and "map createdAt (where_fileName_equals n db) = [t]"
  shows "map createdAt (where_fileName_equals n (run_saves cs db)) = [t] \<and>
         wf_db (run_saves cs db) \<and> distinct (map fileName (images (run_saves cs db)))"
  using assms
proof (induction cs arbitrary: db)
  case Nil
  then show ?case by simp
next
  case (Cons c cs)
  have nm: "name (call_original c) = n"
    using Cons.prems(3) by simp
  obtain e where e: "where_fileName_equals n db = [e]" "createdAt e = t"
    using Cons.prems(4) by auto
  have "map createdAt (where_fileName_equals n (do_save c db)) = [t]"
    using saveImage_created_step[OF Cons.prems(1,2), of "call_original c"] e nm
    by (simp add: do_save_def)
  moreover have "wf_db (do_save c db)"
    using wf_db_saveImage[OF Cons.prems(1)] by (simp add: do_save_def)
  moreover have "distinct (map fileName (images (do_save c db)))"
    using distinct_names_saveImage[OF Cons.prems(1,2)] by (simp add: do_save_def)
  ultimately show ?case
    using Cons.IH[of "do_save c db"] Cons.prems(3) by simp
qed

text \<open>
  Claim C2: in a store whose rows have distinct names, after any non-empty sequence of
  saves under one name \<open>n\<close> there is exactly one row named \<open>n\<close>, and its \<open>createdAt\<close> is
  the one set by the first save of the sequence: the clock reading of that save when no
  row was named \<open>n\<close> before, the \<open>createdAt\<close> of the row that was there otherwise.
\<close>

theorem same_name_saves_one_record:
  assumes "wf_db db" "distinct (map fileName (images db))"
    and "\<forall>c' \<in> set (c # cs). name (call_original c') = n"
  shows "map createdAt (where_fileName_equals n (run_saves (c # cs) db)) =
           [case where_fileName_equals n db of [] \<Rightarrow> call_now c | e # _ \<Rightarrow> createdAt e] \<and>
         length (where_fileName_equals n (run_saves (c # cs) db)) = 1"
proof -
  have nm: "name (call_original c) = n"
    using assms(3) by simp
  let ?t = "case where_fileName_equals n db of [] \<Rightarrow> call_now c | e # _ \<Rightarrow> createdAt e"
  have "map createdAt (where_fileName_equals n (do_save c db)) = [?t]"
    using saveImage_created_step[OF assms(1,2), of "call_original c"] nm
    by (simp add: do_save_def)
  moreover have "wf_db (do_save c db)"
    using wf_db_saveImage[OF assms(1)] by (simp add: do_save_def)
  moreover have "distinct (map fileName (images (do_save c db)))"
    using distinct_names_saveImage[OF assms(1,2)] by (simp add: do_save_def)
  ultimately have m: "map createdAt (where_fileName_equals n (run_saves cs (do_save c db))) = [?t]"
    using run_saves_keeps_created[of "do_save c db" cs n ?t] assms(3) by simp
  then have "length (map createdAt (where_fileName_equals n (run_saves cs (do_save c db)))) =
               length [?t]"
    by (simp only:)
  then have "length (where_fileName_equals n (run_saves cs (do_save c db))) = 1"
    by simp
  with m show ?thesis by simp
qed

theorem same_name_saves_one_record_witness:
  "wf_db empty_db \<and> distinct (map fileName (images empty_db)) \<and>
   name (call_original call_1) = ''a.jpg'' \<and> name (call_original call_2) = ''a.jpg'' \<and>
   map createdAt (where_fileName_equals ''a.jpg'' (run_saves [call_1, call_2] empty_db)) = [1000] \<and>
   length (where_fileName_equals ''a.jpg'' (run_saves [call_1, call_2] empty_db)) = 1"
proof -
  have wf: "wf_db empty_db"
    by (simp add: wf_db_def empty_db_def)
  have dn: "distinct (map fileName (images empty_db))"
    by (simp add: empty_db_def)
  have nm: "\<forall>c' \<in> set (call_1 # [call_2]). name (call_original c') = ''a.jpg''"
    by (simp add: call_1_def call_2_def file_a_def)
  have emp: "where_fileName_equals ''a.jpg'' empty_db = []"
    by (simp add: where_fileName_equals_def empty_db_def)
  show ?thesis
    using same_name_saves_one_record[OF wf dn nm] wf dn nm
    by (simp add: emp call_1_def)
qed

subsection \<open>The retention sweep\<close>

lemma old_keys_exact:
  assumes "sorted_wrt (<) (map img_id rs)"
  shows "filter (\<lambda>r. img_id r \<notin> set (map img_id (filter P rs))) rs = filter (\<lambda>r. \<not> P r) rs"
proof (rule filter_cong[OF refl])
  fix r assume r: "r \<in> set rs"
  show "(img_id r \<notin> set (map img_id (filter P rs))) = (\<not> P r)"
  proof
    assume "img_id r \<notin> set (map img_id (filter P rs))"
    then show "\<not> P r" using r by force
  next
    assume np: "\<not> P r"
    show "img_id r \<notin> set (map img_id (filter P rs))"
    proof
      assume "img_id r \<in> set (map img_id (filter P rs))"
      then obtain e where e: "e \<in> set rs" "P e" "img_id e = img_id r"
        by auto
      then have "r = e"
        using ids_inj[OF assms r, of e] by simp
      with e np show False by simp
    qed
  qed
qed

text \<open>
  Claim C7: \<open>cleanupOldImages\<close> keeps exactly the rows whose \<open>updatedAt\<close> is not before the
  cutoff, in their order, returns the number of rows it deleted, and a second sweep at the
  same clock reading deletes nothing and changes nothing. The cutoff is \<open>now\<close> minus \<open>d\<close>
  days on the local calendar: the instant whose local time is the local time of \<open>now\<close>
  less \<open>d\<close> times 86400000 ms. In a time zone of constant offset that is \<open>now\<close> less \<open>d\<close>
  times 86400000 ms.
\<close>

theorem cleanupOldImages_exact:
  assumes "wf_db db"
  shows "images (snd (cleanupOldImages tz now d db)) =
           filter (\<lambda>r. \<not> updatedAt r < cutoffDate tz now d) (images db) \<and>
         nextId (snd (cleanupOldImages tz now d db)) = nextId db \<and>
         fst (cleanupOldImages tz now d db) =
           length (filter (\<lambda>r. updatedAt r < cutoffDate tz now d) (images db)) \<and>
         fst (cleanupOldImages tz now d db) +
           length (images (snd (cleanupOldImages tz now d db))) = length (images db) \<and>
         fst (cleanupOldImages tz now d (snd (cleanupOldImages tz now d db))) = 0 \<and>
         snd (cleanupOldImages tz now d (snd (cleanupOldImages tz now d db))) =
           snd (cleanupOldImages tz now d db) \<and>
         cutoffDate tz now d = UTC tz (LocalTime tz now - d * 86400000) \<and>
         ((\<forall>t. LocalTime tz t = t + c) \<and> (\<forall>t. UTC tz t = t - c) \<longrightarrow>
            cutoffDate tz now d = now - d * 86400000)"
proof -
  let ?old = "\<lambda>r. updatedAt r < cutoffDate tz now d"
  have srt: "sorted_wrt (<) (map img_id (images db))"
    using assms by (simp add: wf_db_def)
  have fstc: "fst (cleanupOldImages tz now d db') = length (filter ?old (images db'))" for db'
    by (simp add: cleanupOldImages_def Let_def)
  have sndc: "snd (cleanupOldImages tz now d db') =
                db'\<lparr>images := filter (\<lambda>r. img_id r \<notin> set (map img_id (filter ?old (images db'))))
                                  (images db')\<rparr>" for db'
    by (simp add: cleanupOldImages_def Let_def bulkDelete_def)
  have kept: "images (snd (cleanupOldImages tz now d db)) = filter (\<lambda>r. \<not> ?old r) (images db)"
    using old_keys_exact[OF srt, of ?old] by (simp add: sndc)
  have none: "filter ?old (filter (\<lambda>r. \<not> ?old r) (images db)) = []"
    by (simp add: filter_empty_conv)
  have cnt: "length (filter ?old (images db)) + length (filter (\<lambda>r. \<not> ?old r) (images db)) =
               length (images db)"
    using sum_length_filter_compl[of ?old "images db"] by simp
  have twice: "snd (cleanupOldImages tz now d (snd (cleanupOldImages tz now d db))) =
                 snd (cleanupOldImages tz now d db)"
    by (simp add: sndc[of "snd (cleanupOldImages tz now d db)"] kept none)
  have nxt: "nextId (snd (cleanupOldImages tz now d db)) = nextId db"
    by (simp add: sndc)
  have zero: "fst (cleanupOldImages tz now d (snd (cleanupOldImages tz now d db))) = 0"
    by (simp add: fstc kept none)
  have cut: "cutoffDate tz now d = UTC tz (LocalTime tz now - d * 86400000)"
    by (simp add: cutoffDate_def msPerDay_def)
  have const: "(\<forall>t. LocalTime tz t = t + c) \<and> (\<forall>t. UTC tz t = t - c) \<longrightarrow>
                 cutoffDate tz now d = now - d * 86400000"
    by (simp add: cutoffDate_def msPerDay_def)
  have total: "fst (cleanupOldImages tz now d db) +
                 length (images (snd (cleanupOldImages tz now d db))) = length (images db)"
    using cnt by (simp add: fstc kept)
  show ?thesis
    using kept nxt fstc[of db] total zero twice cut const by blast
qed

theorem cleanupOldImages_exact_witness:
  "wf_db db_ab \<and> cutoffDate utc_zone 2592001600 30 = 1600 \<and>
   images (snd (cleanupOldImages utc_zone 2592001600 30 db_ab)) = [row_b] \<and>
   fst (cleanupOldImages utc_zone 2592001600 30 db_ab) = 1 \<and>
   fst (cleanupOldImages utc_zone 2592001600 30
          (snd (cleanupOldImages utc_zone 2592001600 30 db_ab))) = 0"
proof -
  have wf: "wf_db db_ab"
    by (simp add: wf_db_def db_ab_def row_a_def row_b_def)
  have z: "(\<forall>t. LocalTime utc_zone t = t + 0) \<and> (\<forall>t. UTC utc_zone t = t - 0)"
    by (simp add: utc_zone_def)
  have c: "cutoffDate utc_zone 2592001600 30 = 1600"
    using cleanupOldImages_exact[OF wf, of utc_zone 2592001600 30 0] z by simp
  show ?thesis
    using cleanupOldImages_exact[OF wf, of utc_zone 2592001600 30 0] wf
    unfolding c by (simp add: db_ab_def row_a_def row_b_def)
qed

text \<open>
  Across a change of the offset the calendar days are not 24 hours each: in New York on
  20 March 2024 at 12:00 UTC, the cutoff of a 30-day sweep is 19 February at 13:00 UTC,
  29 days and 23 hours back, and a row written that day at 12:30 UTC is deleted.
\<close>

lemma cleanupOldImages_new_york:
  "cutoffDate new_york_zone 1710936000000 30 = 1708347600000 \<and>
   1710936000000 - 30 * msPerDay = 1708344000000 \<and>
   cleanupOldImages new_york_zone 1710936000000 30 db_february =
     (1, \<lparr>images = [], nextId = 2\<rparr>)"
  by (simp add: cutoffDate_def msPerDay_def new_york_zone_def cleanupOldImages_def
      bulkDelete_def db_february_def row_a_def Let_def)

subsection \<open>The storage summary\<close>

text \<open>The index of the unit, computed on natural numbers.\<close>

lemma unit_index_floorlog [code]: "unit_index bytes = floorlog 1024 bytes - 1"
  by (simp add: unit_index_def floorlog_def log_def)

text \<open>The unit index is the power of 1024 at or below the byte count.\<close>

lemma unit_index_eq:
  assumes "1024 ^ i \<le> bytes" "bytes < 1024 ^ Suc i"
  shows "unit_index bytes = i"
proof -
  have pos: "0 < bytes"
    using assms(1) by (metis zero_less_numeral zero_less_power less_le_trans)
  have "floorlog 1024 bytes \<le> Suc i"
    using assms(2) by (simp add: floorlog_le_iff)
  moreover have "Suc i \<le> floorlog 1024 bytes"
    using assms(1) by (intro floorlog_ge_SucI) simp_all
  ultimately show ?thesis
    by (simp add: unit_index_floorlog)
qed

text \<open>The hundredths, as a quotient of natural numbers.\<close>

lemma toFixed_2_quotient:
  "toFixed_2 (real bytes / 1024 ^ i) = (200 * bytes + 1024 ^ i) div (2 * 1024 ^ i)"
proof -
  have "real bytes / 1024 ^ i * 100 + 1 / 2 = real (200 * bytes + 1024 ^ i) / real (2 * 1024 ^ i)"
    by (simp add: field_simps)
  then have "\<lfloor>real bytes / 1024 ^ i * 100 + 1 / 2\<rfloor> = int ((200 * bytes + 1024 ^ i) div (2 * 1024 ^ i))"
    by (simp only: floor_divide_of_nat_eq)
  then show ?thesis
    by (simp add: toFixed_2_def)
qed

lemma storage_loop_sum:
  "storage_loop rs acc =
     acc + (\<Sum>r\<leftarrow>rs. file_size (originalFile r) +
                      (case processedFile r of None \<Rightarrow> 0 | Some p \<Rightarrow> file_size p))"
  by (induction rs arbitrary: acc) (auto split: option.splits)



lemma nat_to_string_digit: "n < 10 \<Longrightarrow> nat_to_string n = [digit_char n]"
  by (simp add: nat_to_string.simps)

lemma nat_to_string_more:
  "10 \<le> n \<Longrightarrow> nat_to_string n = nat_to_string (n div 10) @ [digit_char (n mod 10)]"
  by (subst nat_to_string.simps) simp

lemmas format_eval =
  formatBytes_def toFixed_2_def number_to_string_def sizes_at_def sizes_def
  digit_char_def nat_to_string_digit nat_to_string_more


lemma getStorageSize_sum:
  "getStorageSize db =
     (\<Sum>r\<leftarrow>images db. file_size (originalFile r) +
                          (case processedFile r of None \<Rightarrow> 0 | Some p \<Rightarrow> file_size p))"
  by (simp add: getStorageSize_def storage_loop_sum)

lemma toFixed_2_close:
  assumes "0 \<le> v"
  shows "\<bar>real (toFixed_2 v) / 100 - v\<bar> \<le> 1 / 200"
proof -
  define F where "F = (of_int \<lfloor>v * 100 + 1 / 2\<rfloor> :: real)"
  have nn: "0 \<le> \<lfloor>v * 100 + 1 / 2\<rfloor>"
    using assms by simp
  have eq: "real (toFixed_2 v) = F"
    using nn by (simp add: toFixed_2_def F_def)
  have a: "F \<le> v * 100 + 1 / 2" and b: "v * 100 + 1 / 2 < F + 1"
    unfolding F_def by linarith+
  have "F / 100 - v \<le> 1 / 200" and "- (F / 100 - v) \<le> 1 / 200"
    using a b by linarith+
  then show ?thesis
    unfolding eq by (rule abs_leI)
qed

text \<open>
  Below 1024^4 bytes the summary is as described: a unit among Bytes, KB, MB and GB, the
  one whose power of 1024 is at or below the byte count, after the quotient rounded to
  hundredths.
\<close>

lemma formatBytes_below_terabyte:
  assumes "0 < bytes" "bytes < 1024 ^ 4"
  shows "\<exists>i h. i < 4 \<and> 1024 ^ i \<le> bytes \<and> bytes < 1024 ^ Suc i \<and>
           \<bar>real h / 100 - real bytes / 1024 ^ i\<bar> \<le> 1 / 200 \<and>
           formatBytes bytes = number_to_string h @ '' '' @ sizes ! i"
proof -
  define i where "i = unit_index bytes"
  define h where "h = toFixed_2 (real bytes / 1024 ^ i)"
  have fl: "floorlog 1024 bytes \<le> 4"
    using assms(2) by (simp add: floorlog_le_iff)
  have flpos: "0 < floorlog 1024 bytes"
    using assms(1) by (simp add: floorlog_def)
  have i4: "i < 4"
    using fl flpos by (simp add: i_def unit_index_floorlog)
  have bnd: "1024 ^ (floorlog 1024 bytes - 1) \<le> bytes \<and> bytes < 1024 ^ floorlog 1024 bytes"
    using floorlog_bounds[of bytes 1024] assms(1) by simp
  have suc: "Suc i = floorlog 1024 bytes"
    using flpos by (simp add: i_def unit_index_floorlog)
  have lo: "1024 ^ i \<le> bytes"
    using bnd by (simp add: i_def unit_index_floorlog)
  have hi: "bytes < 1024 ^ Suc i"
    using bnd by (simp only: suc)
  have cl: "\<bar>real h / 100 - real bytes / 1024 ^ i\<bar> \<le> 1 / 200"
    unfolding h_def by (rule toFixed_2_close) simp
  have "formatBytes bytes = number_to_string h @ '' '' @ sizes ! i"
    using assms(1) i4 by (simp add: formatBytes_def Let_def sizes_at_def sizes_def i_def h_def)
  with i4 lo hi cl show ?thesis
    by blast
qed

text \<open>
  Claim C9 at a store of 1024^4 bytes: \<open>getStorageInfo\<close> gives the count 1 and the total,
  but the unit is read past the end of \<open>sizes\<close>, and the size string is \<open>1 undefined\<close>,
  not a number with one of the units Bytes, KB, MB and GB.
\<close>

theorem getStorageInfo_terabyte:
  "count (getStorageInfo db_tb) = 1 \<and> totalSize (getStorageInfo db_tb) = 1024 ^ 4 \<and>
   formattedSize (getStorageInfo db_tb) = ''1 undefined''"
proof -
  have sz: "getStorageSize db_tb = 1099511627776"
    by (simp add: db_tb_def saveImage_def where_fileName_equals_def empty_db_def
        table_add_def getStorageSize_def file_size_def file_tb_def)
  have cnt: "length (images db_tb) = 1"
    by (simp add: db_tb_def saveImage_def where_fileName_equals_def empty_db_def table_add_def)
  have "formatBytes 1099511627776 = ''1 undefined''"
    by (simp add: format_eval unit_index_eq[of 4])
  then show ?thesis
    by (simp add: getStorageInfo_def sz cnt)
qed

section \<open>Properties of the crop planner\<close>

lemma catalog_dimensions:
  assumes "preset \<in> set photoPresets" "preset_id preset \<noteq> ''none''"
  shows "0 < width preset \<and> 0 < height preset"
  using assms
  by (auto simp: photoPresets_def preset_none_def preset_china_visa_def
      preset_us_passport_def preset_linkedin_def)

lemma crop_wide:
  assumes "preset_id p \<noteq> ''none''" "real W / real H > real (width p) / real (height p)"
  shows "calculateCropArea W H p face =
           Some \<lparr>rect_x = (case face of
                             Some f \<Rightarrow> max 0 (min (real W - real H * (real (width p) / real (height p)))
                                        (rect_x f + rect_width f / 2 -
                                         real H * (real (width p) / real (height p)) / 2))
                           | None \<Rightarrow> (real W - real H * (real (width p) / real (height p))) / 2),
                  rect_y = 0,
                  rect_width = real H * (real (width p) / real (height p)),
                  rect_height = real H\<rparr>"
  using assms by (simp add: calculateCropArea_def Let_def split: option.splits)

lemma crop_tall:
  assumes "preset_id p \<noteq> ''none''" "\<not> real W / real H > real (width p) / real (height p)"
  shows "calculateCropArea W H p face =
           Some \<lparr>rect_x = 0,
                  rect_y = (case face of
                             Some f \<Rightarrow> max 0 (min (real H - real W / (real (width p) / real (height p)))
                                        (rect_y f + rect_height f / 2 -
                                         real W / (real (width p) / real (height p)) * 0.4))
                           | None \<Rightarrow> (real H - real W / (real (width p) / real (height p))) / 2),
                  rect_width = real W,
                  rect_height = real W / (real (width p) / real (height p))\<rparr>"
  using assms by (simp add: calculateCropArea_def Let_def split: option.splits)

lemma wide_fits:
  assumes "0 < H" "0 < height p" "real W / real H > real (width p) / real (height p)"
  shows "real H * (real (width p) / real (height p)) < real W"
proof -
  have "real (width p) / real (height p) * real H < real W / real H * real H"
    using assms by (intro mult_strict_right_mono) simp_all
  then show ?thesis
    using assms(1) by (simp add: mult.commute)
qed

lemma tall_fits:
  assumes "0 < H" "0 < width p" "0 < height p"
    "\<not> real W / real H > real (width p) / real (height p)"
  shows "real W / (real (width p) / real (height p)) \<le> real H"
proof -
  define a where "a = real (width p) / real (height p)"
  have a: "0 < a"
    using assms by (simp add: a_def)
  have "real W / real H \<le> a"
    using assms(4) by (simp add: a_def)
  then have "real W \<le> a * real H"
    using assms(1) by (simp add: pos_divide_le_eq)
  then have "real W / a \<le> real H"
    using a by (simp add: pos_divide_le_eq mult.commute)
  then show ?thesis
    by (simp only: a_def)
qed

text \<open>
  Claim C4: for an image of at least 1 by 1 pixels, a preset of the catalog other than
  \<open>none\<close>, and any face box or none, the planner returns a rectangle inside the image
  (\<open>x \<ge> 0\<close>, \<open>y \<ge> 0\<close>, \<open>x + width \<le>\<close> image width, \<open>y + height \<le>\<close> image height) whose
  width over height is the preset's width over height; in real arithmetic the two ratios
  are equal.
\<close>

theorem calculateCropArea_inside:
  assumes "1 \<le> W" "1 \<le> H" "preset \<in> set photoPresets" "preset_id preset \<noteq> ''none''"
  shows "\<exists>r. calculateCropArea W H preset face = Some r \<and>
             0 \<le> rect_x r \<and> 0 \<le> rect_y r \<and>
             rect_x r + rect_width r \<le> real W \<and> rect_y r + rect_height r \<le> real H \<and>
             0 < rect_width r \<and> 0 < rect_height r \<and>
             rect_width r / rect_height r = real (width preset) / real (height preset)"
proof -
  define a where "a = real (width preset) / real (height preset)"
  have dims: "0 < width preset" "0 < height preset"
    using catalog_dimensions[OF assms(3,4)] by simp_all
  have a: "0 < a"
    using dims by (simp add: a_def)
  have W: "0 < real W" and H: "0 < real H"
    using assms(1,2) by simp_all
  show ?thesis
  proof (cases "real W / real H > a")
    case True
    define X where "X = (case face of
        Some f \<Rightarrow> max 0 (min (real W - real H * a) (rect_x f + rect_width f / 2 - real H * a / 2))
      | None \<Rightarrow> (real W - real H * a) / 2)"
    have eq: "calculateCropArea W H preset face =
                Some \<lparr>rect_x = X, rect_y = 0, rect_width = real H * a, rect_height = real H\<rparr>"
      using crop_wide[OF assms(4), of W H face] True
      unfolding a_def X_def by simp
    have fit: "real H * a < real W"
      using wide_fits[of H preset W] True assms(2) dims(2) unfolding a_def by simp
    have pos: "0 < real H * a"
      using H a by simp
    have ratio: "real H * a / real H = a"
      using H by simp
    have X: "0 \<le> X \<and> X + real H * a \<le> real W"
    proof -
      define cw where "cw = real H * a"
      have "0 \<le> (real W - cw) / 2 \<and> (real W - cw) / 2 + cw \<le> real W"
        using fit pos unfolding cw_def[symmetric] by (simp add: field_simps)
      moreover have "0 \<le> max 0 (min (real W - cw) v) \<and> max 0 (min (real W - cw) v) + cw \<le> real W"
        for v
        using fit pos unfolding cw_def[symmetric] by auto
      ultimately show ?thesis
        unfolding X_def cw_def by (cases face) simp_all
    qed
    show ?thesis
      unfolding eq a_def[symmetric] using X pos H ratio by simp
  next
    case False
    define Y where "Y = (case face of
        Some f \<Rightarrow> max 0 (min (real H - real W / a) (rect_y f + rect_height f / 2 - real W / a * 0.4))
      | None \<Rightarrow> (real H - real W / a) / 2)"
    have eq: "calculateCropArea W H preset face =
                Some \<lparr>rect_x = 0, rect_y = Y, rect_width = real W, rect_height = real W / a\<rparr>"
      using crop_tall[OF assms(4), of W H face] False
      unfolding a_def Y_def by simp
    have fit: "real W / a \<le> real H"
      using tall_fits[of H preset W] False assms(2) dims unfolding a_def by simp
    have pos: "0 < real W / a"
      using W a by simp
    have ratio: "real W / (real W / a) = a"
      using W a by simp
    have Y: "0 \<le> Y \<and> Y + real W / a \<le> real H"
    proof -
      define ch where "ch = real W / a"
      have "0 \<le> (real H - ch) / 2 \<and> (real H - ch) / 2 + ch \<le> real H"
        using fit pos unfolding ch_def[symmetric] by (simp add: field_simps)
      moreover have "0 \<le> max 0 (min (real H - ch) v) \<and> max 0 (min (real H - ch) v) + ch \<le> real H"
        for v
        using fit pos unfolding ch_def[symmetric] by auto
      ultimately show ?thesis
        unfolding Y_def ch_def by (cases face) simp_all
    qed
    show ?thesis
      unfolding eq a_def[symmetric] using Y pos W ratio by simp
  qed
qed


theorem calculateCropArea_inside_witness:
  "(1::nat) \<le> 800 \<and> (1::nat) \<le> 600 \<and> preset_china_visa \<in> set photoPresets \<and>
   preset_id preset_china_visa \<noteq> ''none'' \<and>
   (\<exists>r. calculateCropArea 800 600 preset_china_visa (Some face_1) = Some r \<and>
        0 \<le> rect_x r \<and> 0 \<le> rect_y r \<and>
        rect_x r + rect_width r \<le> real 800 \<and> rect_y r + rect_height r \<le> real 600 \<and>
        0 < rect_width r \<and> 0 < rect_height r \<and>
        rect_width r / rect_height r =
          real (width preset_china_visa) / real (height preset_china_visa))"
proof -
  have w: "(1::nat) \<le> 800" and h: "(1::nat) \<le> 600"
    by simp_all
  have m: "preset_china_visa \<in> set photoPresets"
    by (simp add: photoPresets_def)
  have n: "preset_id preset_china_visa \<noteq> ''none''"
    by (simp add: preset_china_visa_def)
  show ?thesis
    using calculateCropArea_inside[OF w h m n, of "Some face_1"] w h m n
    by (intro conjI)
qed

text \<open>
  Claim C5: without a face box the planner returns the largest rectangle of the preset's
  ratio that fits in the image. When the image's ratio exceeds the preset's, the crop has
  the image's height, that height times the preset's ratio as width, \<open>y = 0\<close> and is
  centred horizontally; otherwise it has the image's width, that width divided by the
  preset's ratio as height, \<open>x = 0\<close> and is centred vertically. No rectangle of the preset's
  ratio inside the image is wider or higher.
\<close>

theorem calculateCropArea_no_face:
  assumes "1 \<le> W" "1 \<le> H" "preset_id p \<noteq> ''none''" "0 < width p" "0 < height p"
  shows "\<exists>r. calculateCropArea W H p None = Some r \<and>
           (if real W / real H > real (width p) / real (height p)
            then rect_height r = real H \<and>
                 rect_width r = real H * (real (width p) / real (height p)) \<and>
                 rect_y r = 0 \<and> rect_x r = (real W - rect_width r) / 2
            else rect_width r = real W \<and>
                 rect_height r = real W / (real (width p) / real (height p)) \<and>
                 rect_x r = 0 \<and> rect_y r = (real H - rect_height r) / 2) \<and>
           rect_x r + rect_width r / 2 = real W / 2 \<and>
           rect_y r + rect_height r / 2 = real H / 2 \<and>
           (\<forall>w h. 0 < h \<and> w \<le> real W \<and> h \<le> real H \<and>
                  w / h = real (width p) / real (height p) \<longrightarrow>
                  w \<le> rect_width r \<and> h \<le> rect_height r)"
proof -
  define a where "a = real (width p) / real (height p)"
  have a: "0 < a"
    using assms(4,5) by (simp add: a_def)
  have W: "0 < real W" and H: "0 < real H"
    using assms(1,2) by simp_all
  have fill: "w \<le> a * h'" if "0 < h" "w / h = a" "h \<le> h'" for w h h' :: real
  proof -
    have "w = a * h"
      using that(1,2) by (simp add: field_simps)
    then show ?thesis
      using a that(3) by simp
  qed
  have fill': "h \<le> w' / a" if "0 < h" "w / h = a" "w \<le> w'" for w h w' :: real
  proof -
    have "w = a * h"
      using that(1,2) by (simp add: field_simps)
    then have "h = w / a"
      using a by simp
    then show ?thesis
      using a that(3) by (simp add: divide_right_mono)
  qed
  show ?thesis
  proof (cases "real W / real H > a")
    case True
    define r where "r = \<lparr>rect_x = (real W - real H * a) / 2, rect_y = 0,
                          rect_width = real H * a, rect_height = real H\<rparr>"
    have eq: "calculateCropArea W H p None = Some r"
      using crop_wide[OF assms(3), of W H None] True unfolding a_def r_def by simp
    have shape: "if real W / real H > a
                 then rect_height r = real H \<and> rect_width r = real H * a \<and>
                      rect_y r = 0 \<and> rect_x r = (real W - rect_width r) / 2
                 else rect_width r = real W \<and> rect_height r = real W / a \<and>
                      rect_x r = 0 \<and> rect_y r = (real H - rect_height r) / 2"
      using True by (simp add: r_def)
    have cx: "rect_x r + rect_width r / 2 = real W / 2"
      by (simp add: r_def field_simps)
    have cy: "rect_y r + rect_height r / 2 = real H / 2"
      by (simp add: r_def)
    have mx: "\<forall>w h. 0 < h \<and> w \<le> real W \<and> h \<le> real H \<and> w / h = a \<longrightarrow>
                    w \<le> rect_width r \<and> h \<le> rect_height r"
      using fill[of _ _ "real H"] by (auto simp: r_def mult.commute)
    show ?thesis
      using eq shape cx cy mx unfolding a_def by blast
  next
    case False
    define r where "r = \<lparr>rect_x = 0, rect_y = (real H - real W / a) / 2,
                          rect_width = real W, rect_height = real W / a\<rparr>"
    have eq: "calculateCropArea W H p None = Some r"
      using crop_tall[OF assms(3), of W H None] False unfolding a_def r_def by simp
    have shape: "if real W / real H > a
                 then rect_height r = real H \<and> rect_width r = real H * a \<and>
                      rect_y r = 0 \<and> rect_x r = (real W - rect_width r) / 2
                 else rect_width r = real W \<and> rect_height r = real W / a \<and>
                      rect_x r = 0 \<and> rect_y r = (real H - rect_height r) / 2"
      using False by (simp add: r_def)
    have cx: "rect_x r + rect_width r / 2 = real W / 2"
      by (simp add: r_def)
    define ch where "ch = real W / a"
    have "(real H - ch) / 2 + ch / 2 = real H / 2"
      by (simp add: field_simps)
    then have cy: "rect_y r + rect_height r / 2 = real H / 2"
      by (simp add: r_def ch_def)
    have mx: "\<forall>w h. 0 < h \<and> w \<le> real W \<and> h \<le> real H \<and> w / h = a \<longrightarrow>
                    w \<le> rect_width r \<and> h \<le> rect_height r"
      using fill'[of _ _ "real W"] by (auto simp: r_def)
    show ?thesis
      using eq shape cx cy mx unfolding a_def by blast
  qed
qed


theorem calculateCropArea_no_face_witness:
  "(1::nat) \<le> 1000 \<and> (1::nat) \<le> 500 \<and> preset_id preset_linkedin \<noteq> ''none'' \<and>
   0 < width preset_linkedin \<and> 0 < height preset_linkedin \<and>
   calculateCropArea 1000 500 preset_linkedin None =
     Some \<lparr>rect_x = 250, rect_y = 0, rect_width = 500, rect_height = 500\<rparr>"
proof -
  have w: "(1::nat) \<le> 1000" and h: "(1::nat) \<le> 500"
    by simp_all
  have n: "preset_id preset_linkedin \<noteq> ''none''"
    and d: "0 < width preset_linkedin" "0 < height preset_linkedin"
    by (simp_all add: preset_linkedin_def)
  have dims: "width preset_linkedin = 400" "height preset_linkedin = 400"
    by (simp_all add: preset_linkedin_def)
  obtain r where r: "calculateCropArea 1000 500 preset_linkedin None = Some r"
    and "rect_height r = 500" "rect_width r = 500" "rect_y r = 0" "rect_x r = 250"
    using calculateCropArea_no_face[OF w h n d] by (auto simp: dims)
  then have "r = \<lparr>rect_x = 250, rect_y = 0, rect_width = 500, rect_height = 500\<rparr>"
    by (cases r) simp
  with r w h n d show ?thesis
    by simp
qed

text \<open>
  Claim C6: with a face box \<open>f\<close>. When the image's ratio exceeds the preset's, the crop's
  \<open>x\<close> is the face's horizontal centre minus half the crop width, clamped to the range from
  0 to image width minus crop width; where nothing is clamped, the crop's horizontal
  centre is the face's. Otherwise (image relatively taller, or of equal ratio) the crop's
  \<open>y\<close> is the face's vertical centre minus 40% of the crop height, clamped to the range
  from 0 to image height minus crop height; where nothing is clamped, the face's centre is
  40% of the crop height below the crop's top.
\<close>

theorem calculateCropArea_face:
  assumes "1 \<le> W" "1 \<le> H" "preset_id p \<noteq> ''none''" "0 < width p" "0 < height p"
  shows "\<exists>r. calculateCropArea W H p (Some f) = Some r \<and>
           (if real W / real H > real (width p) / real (height p)
            then rect_height r = real H \<and>
                 rect_width r = real H * (real (width p) / real (height p)) \<and>
                 rect_y r = 0 \<and>
                 rect_x r = max 0 (min (real W - rect_width r)
                                       (rect_x f + rect_width f / 2 - rect_width r / 2)) \<and>
                 0 \<le> rect_x r \<and> rect_x r \<le> real W - rect_width r \<and>
                 (0 \<le> rect_x f + rect_width f / 2 - rect_width r / 2 \<and>
                  rect_x f + rect_width f / 2 - rect_width r / 2 \<le> real W - rect_width r \<longrightarrow>
                  rect_x r + rect_width r / 2 = rect_x f + rect_width f / 2)
            else rect_width r = real W \<and>
                 rect_height r = real W / (real (width p) / real (height p)) \<and>
                 rect_x r = 0 \<and>
                 rect_y r = max 0 (min (real H - rect_height r)
                                       (rect_y f + rect_height f / 2 - rect_height r * 0.4)) \<and>
                 0 \<le> rect_y r \<and> rect_y r \<le> real H - rect_height r \<and>
                 (0 \<le> rect_y f + rect_height f / 2 - rect_height r * 0.4 \<and>
                  rect_y f + rect_height f / 2 - rect_height r * 0.4 \<le> real H - rect_height r \<longrightarrow>
                  rect_y r + rect_height r * 0.4 = rect_y f + rect_height f / 2))"
proof -
  define a where "a = real (width p) / real (height p)"
  define fx where "fx = rect_x f + rect_width f / 2"
  define fy where "fy = rect_y f + rect_height f / 2"
  have clamp: "0 \<le> max 0 (min hi v) \<and> max 0 (min hi v) \<le> hi \<and>
               (0 \<le> v \<and> v \<le> hi \<longrightarrow> max 0 (min hi v) = v)" if "0 \<le> hi" for hi v :: real
    using that by auto
  show ?thesis
  proof (cases "real W / real H > a")
    case True
    define cw where "cw = real H * a"
    define r where "r = \<lparr>rect_x = max 0 (min (real W - cw) (fx - cw / 2)), rect_y = 0,
                          rect_width = cw, rect_height = real H\<rparr>"
    have eq: "calculateCropArea W H p (Some f) = Some r"
      using crop_wide[OF assms(3), of W H "Some f"] True
      unfolding a_def r_def cw_def fx_def by simp
    have fit: "0 \<le> real W - cw"
      using wide_fits[of H p W] True assms(2,5) unfolding a_def cw_def by simp
    have fld: "rect_height r = real H" "rect_width r = cw" "rect_y r = 0"
      "rect_x r = max 0 (min (real W - cw) (fx - cw / 2))"
      by (simp_all add: r_def)
    have "rect_x r + cw / 2 = fx" if "0 \<le> fx - cw / 2 \<and> fx - cw / 2 \<le> real W - cw"
      using clamp[OF fit, of "fx - cw / 2"] that by (simp add: fld)
    then show ?thesis
      using eq True clamp[OF fit, of "fx - cw / 2"] fld
      unfolding a_def[symmetric] fx_def[symmetric] cw_def[symmetric]
      by (intro exI[of _ r]) simp
  next
    case False
    define ch where "ch = real W / a"
    define r where "r = \<lparr>rect_x = 0, rect_y = max 0 (min (real H - ch) (fy - ch * 0.4)),
                          rect_width = real W, rect_height = ch\<rparr>"
    have eq: "calculateCropArea W H p (Some f) = Some r"
      using crop_tall[OF assms(3), of W H "Some f"] False
      unfolding a_def r_def ch_def fy_def by simp
    have fit: "0 \<le> real H - ch"
      using tall_fits[of H p W] False assms(2,4,5) unfolding a_def ch_def by simp
    have fld: "rect_height r = ch" "rect_width r = real W" "rect_x r = 0"
      "rect_y r = max 0 (min (real H - ch) (fy - ch * 0.4))"
      by (simp_all add: r_def)
    have "rect_y r + ch * 0.4 = fy" if "0 \<le> fy - ch * 0.4 \<and> fy - ch * 0.4 \<le> real H - ch"
      using clamp[OF fit, of "fy - ch * 0.4"] that by (simp add: fld)
    then show ?thesis
      using eq False clamp[OF fit, of "fy - ch * 0.4"] fld
      unfolding a_def[symmetric] fy_def[symmetric] ch_def[symmetric]
      by (intro exI[of _ r]) simp
  qed
qed


theorem calculateCropArea_face_witness:
  "(1::nat) \<le> 800 \<and> (1::nat) \<le> 600 \<and> preset_id preset_china_visa \<noteq> ''none'' \<and>
   0 < width preset_china_visa \<and> 0 < height preset_china_visa \<and>
   calculateCropArea 800 600 preset_china_visa (Some face_1) =
     Some \<lparr>rect_x = 125, rect_y = 0, rect_width = 450, rect_height = 600\<rparr> \<and>
   (1::nat) \<le> 1000 \<and> preset_id preset_us_passport \<noteq> ''none'' \<and>
   0 < width preset_us_passport \<and> 0 < height preset_us_passport \<and>
   calculateCropArea 600 1000 preset_us_passport (Some face_2) =
     Some \<lparr>rect_x = 0, rect_y = 110, rect_width = 600, rect_height = 600\<rparr>"
proof -
  have w: "(1::nat) \<le> 800" and h: "(1::nat) \<le> 600" and h': "(1::nat) \<le> 1000"
    by simp_all
  have n: "preset_id preset_china_visa \<noteq> ''none''"
    and d: "0 < width preset_china_visa" "0 < height preset_china_visa"
    by (simp_all add: preset_china_visa_def)
  have n': "preset_id preset_us_passport \<noteq> ''none''"
    and d': "0 < width preset_us_passport" "0 < height preset_us_passport"
    by (simp_all add: preset_us_passport_def)
  have dims: "width preset_china_visa = 420" "height preset_china_visa = 560"
    "width preset_us_passport = 600" "height preset_us_passport = 600"
    by (simp_all add: preset_china_visa_def preset_us_passport_def)
  obtain r where r: "calculateCropArea 800 600 preset_china_visa (Some face_1) = Some r"
    and "rect_height r = 600" "rect_width r = 450" "rect_y r = 0" "rect_x r = 125"
    using calculateCropArea_face[OF w h n d, of face_1] by (auto simp: dims face_1_def)
  then have 1: "r = \<lparr>rect_x = 125, rect_y = 0, rect_width = 450, rect_height = 600\<rparr>"
    by (cases r) simp
  obtain r' where r': "calculateCropArea 600 1000 preset_us_passport (Some face_2) = Some r'"
    and "rect_height r' = 600" "rect_width r' = 600" "rect_x r' = 0" "rect_y r' = 110"
    using calculateCropArea_face[OF h h' n' d', of face_2] by (auto simp: dims face_2_def)
  then have 2: "r' = \<lparr>rect_x = 0, rect_y = 110, rect_width = 600, rect_height = 600\<rparr>"
    by (cases r') simp
  from 1 2 r r' w h h' n d n' d' show ?thesis
    by simp
qed

section \<open>Properties of the double arithmetic\<close>

text \<open>
  Rounding to a double loses at most one part in \<open>2 ^ 53\<close>, and nothing when the mantissa
  has at most 53 bits. So every operation returns its exact result up to that relative
  error.
\<close>

lemma num_val_powr: "num_val a = of_int (mant a) * 2 powr of_int (expo a)"
proof (cases "0 \<le> expo a")
  case True
  then have "of_int (expo a) = real (nat (expo a))"
    by simp
  then have "(2::real) powr of_int (expo a) = 2 ^ nat (expo a)"
    by (simp only: powr_realpow zero_less_numeral)
  then show ?thesis
    using True by (simp add: num_val_def)
next
  case False
  then have "of_int (expo a) = - real (nat (- expo a))"
    by simp
  then have "(2::real) powr of_int (expo a) = 1 / 2 ^ nat (- expo a)"
    by (simp only: powr_minus powr_realpow zero_less_numeral) (simp add: field_simps)
  then show ?thesis
    using False by (simp add: num_val_def)
qed

lemma round_exact:
  assumes "\<bar>m\<bar> < 2 ^ 53"
  shows "round_to_double m e = \<lparr>mant = m, expo = e\<rparr>"
proof -
  have "bitlen \<bar>m\<bar> \<le> 53"
    using assms by (simp add: bitlen_le_iff_power)
  then show ?thesis
    by (simp add: round_to_double_def)
qed

lemma round_int:
  fixes a :: int
  assumes "53 < bitlen a"
  defines "s \<equiv> nat (bitlen a - 53)"
  defines "q \<equiv> a div 2 ^ s" and "r \<equiv> a mod 2 ^ s"
  defines "q' \<equiv> (if 2 * r < 2 ^ s then q else if 2 ^ s < 2 * r then q + 1
                    else if even q then q else q + 1)"
  shows "2 ^ 53 * \<bar>q' * 2 ^ s - a\<bar> \<le> a"
proof -
  have apos: "0 < a"
    using assms(1) bitlen_eq_zero_iff[of a] by linarith
  have split: "a = q * 2 ^ s + r"
    by (simp only: q_def r_def div_mult_mod_eq)
  have r: "0 \<le> r" "r < 2 ^ s"
    by (simp_all add: r_def)
  have near: "2 * \<bar>q' * 2 ^ s - a\<bar> \<le> 2 ^ s"
    using r unfolding q'_def split by (auto simp: algebra_simps)
  have "nat (bitlen a - 1) = 52 + s"
    using assms(1) by (simp add: s_def)
  then have big: "(2::int) ^ (52 + s) \<le> a"
    using bitlen_bounds[OF apos] by simp
  have "2 ^ 53 * \<bar>q' * 2 ^ s - a\<bar> = 2 ^ 52 * (2 * \<bar>q' * 2 ^ s - a\<bar>)"
    by simp
  also have "\<dots> \<le> 2 ^ 52 * 2 ^ s"
    using near by (intro mult_left_mono) simp_all
  also have "\<dots> = 2 ^ (52 + s)"
    by (simp add: power_add)
  finally show ?thesis
    using big by linarith
qed


lemma round_err:
  "\<bar>num_val (round_to_double m e) - of_int m * 2 powr of_int e\<bar>
     \<le> \<bar>of_int m * 2 powr of_int e\<bar> / 2 ^ 53"
proof (cases "bitlen \<bar>m\<bar> \<le> 53")
  case True
  then show ?thesis
    by (simp add: round_to_double_def num_val_powr)
next
  case False
  define a where "a = \<bar>m\<bar>"
  define s where "s = nat (bitlen a - 53)"
  define q' where "q' = (if 2 * (a mod 2 ^ s) < 2 ^ s then a div 2 ^ s
                         else if 2 ^ s < 2 * (a mod 2 ^ s) then a div 2 ^ s + 1
                         else if even (a div 2 ^ s) then a div 2 ^ s else a div 2 ^ s + 1)"
  have big: "53 < bitlen a"
    using False by (simp add: a_def)
  have int_bound: "2 ^ 53 * \<bar>q' * 2 ^ s - a\<bar> \<le> a"
    unfolding q'_def s_def by (rule round_int[OF big])
  have res: "round_to_double m e = \<lparr>mant = sgn m * q', expo = e + int s\<rparr>"
    using False by (simp add: round_to_double_def Let_def a_def s_def q'_def)
  define P where "P = (2::real) powr of_int e"
  have P: "0 < P"
    by (simp add: P_def)
  have pw: "(2::real) powr of_int (e + int s) = 2 ^ s * P"
    by (simp add: P_def powr_add powr_realpow)
  have m: "m = sgn m * a"
    by (simp add: a_def sgn_mult_abs)
  have m0: "m \<noteq> 0"
    using big by (auto simp: a_def)
  have val_res: "num_val (round_to_double m e) = of_int (sgn m * q') * (2 ^ s * P)"
    by (simp only: res num_val_powr js_number.simps pw)
  have mr: "(of_int m :: real) = of_int (sgn m) * of_int a"
    using m by (metis of_int_mult)
  have "num_val (round_to_double m e) - of_int (sgn m) * of_int a * P =
          of_int (sgn m) * (of_int q' * 2 ^ s - of_int a) * P"
    by (simp add: val_res algebra_simps)
  then have "num_val (round_to_double m e) - of_int m * P =
          of_int (sgn m) * (of_int q' * 2 ^ s - of_int a) * P"
    by (simp only: mr)
  then have "\<bar>num_val (round_to_double m e) - of_int m * P\<bar> =
               \<bar>of_int q' * 2 ^ s - of_int a\<bar> * P"
    using m0 P by (simp add: abs_mult sgn_if)
  also have "\<dots> = real_of_int \<bar>q' * 2 ^ s - a\<bar> * P"
    by simp
  also have "\<dots> \<le> (real_of_int a / 2 ^ 53) * P"
  proof (intro mult_right_mono)
    have "real_of_int (2 ^ 53 * \<bar>q' * 2 ^ s - a\<bar>) \<le> real_of_int a"
      using int_bound by (simp only: of_int_le_iff)
    then show "real_of_int \<bar>q' * 2 ^ s - a\<bar> \<le> real_of_int a / 2 ^ 53"
      by (simp add: field_simps)
    show "0 \<le> P"
      using P by simp
  qed
  also have "\<dots> = \<bar>of_int m * P\<bar> / 2 ^ 53"
    using P by (simp add: a_def abs_mult)
  finally show ?thesis
    by (simp only: P_def)
qed


lemma shift_exact:
  assumes "e' \<le> e"
  shows "real_of_int (m * 2 ^ nat (e - e')) * 2 powr of_int e' = of_int m * 2 powr of_int e"
proof -
  have "of_int e = real (nat (e - e')) + real_of_int e'"
    using assms by simp
  then have "(2::real) powr of_int e = 2 ^ nat (e - e') * 2 powr of_int e'"
    by (simp only: powr_add powr_realpow zero_less_numeral)
  then show ?thesis
    by simp
qed

lemma add_err:
  "\<bar>num_val (num_add a b) - (num_val a + num_val b)\<bar> \<le> \<bar>num_val a + num_val b\<bar> / 2 ^ 53"
proof -
  define e where "e = min (expo a) (expo b)"
  define m where "m = mant a * 2 ^ nat (expo a - e) + mant b * 2 ^ nat (expo b - e)"
  have sa: "real_of_int (mant a * 2 ^ nat (expo a - e)) * 2 powr of_int e = num_val a"
    unfolding num_val_powr by (rule shift_exact) (simp add: e_def)
  have sb: "real_of_int (mant b * 2 ^ nat (expo b - e)) * 2 powr of_int e = num_val b"
    unfolding num_val_powr by (rule shift_exact) (simp add: e_def)
  have "of_int m * 2 powr of_int e = num_val a + num_val b"
    unfolding m_def by (simp only: of_int_add distrib_right sa sb)
  moreover have "num_add a b = round_to_double m e"
    by (simp add: num_add_def Let_def m_def e_def)
  ultimately show ?thesis
    using round_err[of m e] by simp
qed

lemma sub_err:
  "\<bar>num_val (num_sub a b) - (num_val a - num_val b)\<bar> \<le> \<bar>num_val a - num_val b\<bar> / 2 ^ 53"
proof -
  define e where "e = min (expo a) (expo b)"
  define m where "m = mant a * 2 ^ nat (expo a - e) - mant b * 2 ^ nat (expo b - e)"
  have sa: "real_of_int (mant a * 2 ^ nat (expo a - e)) * 2 powr of_int e = num_val a"
    unfolding num_val_powr by (rule shift_exact) (simp add: e_def)
  have sb: "real_of_int (mant b * 2 ^ nat (expo b - e)) * 2 powr of_int e = num_val b"
    unfolding num_val_powr by (rule shift_exact) (simp add: e_def)
  have "of_int m * 2 powr of_int e = num_val a - num_val b"
    unfolding m_def by (simp only: of_int_diff left_diff_distrib sa sb)
  moreover have "num_sub a b = round_to_double m e"
    by (simp add: num_sub_def Let_def m_def e_def)
  ultimately show ?thesis
    using round_err[of m e] by simp
qed

lemma mul_err:
  "\<bar>num_val (num_mul a b) - num_val a * num_val b\<bar> \<le> \<bar>num_val a * num_val b\<bar> / 2 ^ 53"
proof -
  have "of_int (mant a * mant b) * 2 powr of_int (expo a + expo b) = num_val a * num_val b"
    by (simp add: num_val_powr powr_add)
  then show ?thesis
    using round_err[of "mant a * mant b" "expo a + expo b"] by (simp add: num_mul_def)
qed


text \<open>
  Division: the quotient with its remainder bit is within one unit of twice the exact
  quotient, a relative error below \<open>2 ^ - 54\<close>, and rounding adds \<open>2 ^ - 53\<close>.
\<close>

lemma div_int:
  fixes p q :: int
  assumes "0 \<le> p" "0 < q"
  defines "k \<equiv> nat (55 + bitlen q - bitlen p)"
  defines "N \<equiv> p * 2 ^ k"
  defines "m \<equiv> 2 * (N div q) + (if N mod q = 0 then 0 else 1)"
  shows "2 ^ 55 * \<bar>m * q - 2 * N\<bar> \<le> 2 * N"
proof (cases "p = 0")
  case True
  then show ?thesis
    by (simp add: N_def m_def)
next
  case False
  then have ppos: "0 < p"
    using assms(1) by simp
  define d where "d = N div q"
  define r where "r = N mod q"
  have N_eq: "N = d * q + r"
    by (simp only: d_def r_def div_mult_mod_eq)
  have m_eq: "m = 2 * d + (if r = 0 then 0 else 1)"
    by (simp only: m_def d_def r_def)
  have r: "0 \<le> r" "r < q"
    using assms(2) by (simp_all add: r_def)
  have "m * q - 2 * N = (if r = 0 then 0 else q - 2 * r)"
    unfolding N_eq m_eq by (simp add: algebra_simps)
  then have near: "\<bar>m * q - 2 * N\<bar> \<le> q"
    using r by (auto split: if_splits)
  define bp where "bp = nat (bitlen p)"
  define bq where "bq = nat (bitlen q)"
  have bl: "bitlen p = int bp" "bitlen q = int bq"
    by (simp_all add: bp_def bq_def bitlen_nonneg)
  have bp1: "1 \<le> bp"
    using ppos bitlen_eq_zero_iff[of p] bitlen_nonneg[of p] by (simp add: bp_def)
  have plo: "2 ^ (bp - 1) \<le> p"
    using bitlen_bounds[OF ppos] bp1 by (simp add: bl nat_diff_distrib)
  have qhi: "q < 2 ^ bq"
    using bitlen_bounds[OF assms(2)] by (simp add: bl)
  have "54 + bq \<le> (bp - 1) + k"
    using bp1 by (simp add: k_def bl)
  then have "(2::int) ^ (54 + bq) \<le> 2 ^ ((bp - 1) + k)"
    by (intro power_increasing) simp_all
  also have "\<dots> = 2 ^ (bp - 1) * 2 ^ k"
    by (simp add: power_add)
  also have "\<dots> \<le> N"
    unfolding N_def using plo by (intro mult_right_mono) simp_all
  finally have big: "2 ^ (54 + bq) \<le> N" .
  have "2 ^ 54 * q \<le> 2 ^ 54 * 2 ^ bq"
    using qhi by (intro mult_left_mono) simp_all
  also have "\<dots> = 2 ^ (54 + bq)"
    by (simp add: power_add)
  finally have "2 ^ 54 * q \<le> N"
    using big by linarith
  then have "2 ^ 55 * q \<le> 2 * N"
    by simp
  moreover have "2 ^ 55 * \<bar>m * q - 2 * N\<bar> \<le> 2 ^ 55 * q"
    using near by (intro mult_left_mono) simp_all
  ultimately show ?thesis
    by linarith
qed


lemma div_err:
  assumes "0 \<le> mant a" "0 < mant b"
  shows "\<bar>num_val (num_div a b) - num_val a / num_val b\<bar> \<le> \<bar>num_val a / num_val b\<bar> / 2 ^ 52"
proof -
  define p where "p = mant a"
  define q where "q = mant b"
  define k where "k = nat (55 + bitlen q - bitlen p)"
  define N where "N = p * 2 ^ k"
  define m where "m = 2 * (N div q) + (if N mod q = 0 then 0 else 1)"
  define E where "E = expo a - expo b - int k - 1"
  define T where "T = (2::real) powr of_int (expo a - expo b)"
  define X where "X = num_val a / num_val b"
  define Y where "Y = (of_int m * 2 powr of_int E :: real)"
  have p: "0 \<le> p" and q: "0 < q"
    using assms by (simp_all add: p_def q_def)
  have T: "0 < T"
    by (simp add: T_def)
  have sg: "sgn p * sgn q * m = m"
  proof (cases "p = 0")
    case True
    then show ?thesis by (simp add: m_def N_def)
  next
    case False
    then show ?thesis using p q by simp
  qed
  have ab: "\<bar>p\<bar> = p" "\<bar>q\<bar> = q"
    using p q by simp_all
  have "num_div a b = round_to_double (sgn p * sgn q * m) E"
    unfolding num_div_def Let_def p_def[symmetric] q_def[symmetric] ab
      k_def[symmetric] N_def[symmetric] m_def[symmetric] E_def[symmetric] ..
  then have res: "num_div a b = round_to_double m E"
    by (simp only: sg)
  have Xeq: "X = of_int p / of_int q * T"
    by (simp add: X_def num_val_powr p_def q_def T_def powr_diff)
  have "of_int E = of_int (expo a - expo b) - real (k + 1)"
    by (simp add: E_def)
  then have "(2::real) powr of_int E = T / 2 ^ (k + 1)"
    by (simp only: T_def powr_diff powr_realpow zero_less_numeral)
  then have Yeq: "Y = of_int m * T / 2 ^ (k + 1)"
    by (simp add: Y_def)
  have X0: "0 \<le> X"
    using p q T by (simp add: Xeq)
  have "real_of_int (2 ^ 55 * \<bar>m * q - 2 * N\<bar>) \<le> real_of_int (2 * N)"
    using div_int[OF p q] unfolding k_def[symmetric] N_def[symmetric] m_def[symmetric]
    by (simp only: of_int_le_iff)
  then have ib: "2 ^ 55 * \<bar>of_int m * of_int q - 2 * (of_int p * 2 ^ k)\<bar> \<le> 2 * (of_int p * 2 ^ k :: real)"
    by (simp add: N_def)
  have qr: "0 < (of_int q :: real)"
    using q by simp
  have "Y - X = (of_int m * of_int q - 2 * (of_int p * 2 ^ k)) * (T / (of_int q * 2 ^ (k + 1)))"
    using qr by (simp add: Yeq Xeq field_simps)
  then have "\<bar>Y - X\<bar> = \<bar>of_int m * of_int q - 2 * (of_int p * 2 ^ k)\<bar> * (T / (of_int q * 2 ^ (k + 1)))"
    using qr T by (simp add: abs_mult)
  also have "\<dots> \<le> (2 * (of_int p * 2 ^ k) / 2 ^ 55) * (T / (of_int q * 2 ^ (k + 1)))"
  proof (intro mult_right_mono)
    show "\<bar>of_int m * of_int q - 2 * (of_int p * 2 ^ k)\<bar> \<le> 2 * (of_int p * 2 ^ k :: real) / 2 ^ 55"
      using ib by (simp add: field_simps)
    show "0 \<le> T / (of_int q * 2 ^ (k + 1))"
      using qr T by simp
  qed
  also have "\<dots> = X / 2 ^ 55"
    using qr by (simp add: Xeq field_simps)
  finally have yx: "\<bar>Y - X\<bar> \<le> X / 2 ^ 55" .
  have "\<bar>Y\<bar> \<le> X + X / 2 ^ 55"
    using yx X0 by linarith
  have "\<bar>num_val (num_div a b) - Y\<bar> \<le> \<bar>Y\<bar> / 2 ^ 53"
    using round_err[of m E] by (simp add: res Y_def)
  moreover from \<open>\<bar>Y\<bar> \<le> X + X / 2 ^ 55\<close> have "\<bar>Y\<bar> / 2 ^ 53 \<le> (X + X / 2 ^ 55) / 2 ^ 53"
    by (intro divide_right_mono) simp_all
  ultimately have "\<bar>num_val (num_div a b) - Y\<bar> \<le> (X + X / 2 ^ 55) / 2 ^ 53"
    by (rule order_trans)
  then have "\<bar>num_val (num_div a b) - X\<bar> \<le> (X + X / 2 ^ 55) / 2 ^ 53 + X / 2 ^ 55"
    using yx by linarith
  also have "\<dots> \<le> X / 2 ^ 52"
    using X0 by simp
  finally have "\<bar>num_val (num_div a b) - X\<bar> \<le> \<bar>X\<bar> / 2 ^ 52"
    using X0 by (simp only: abs_of_nonneg)
  then show ?thesis
    by (simp only: X_def)
qed

section \<open>Properties of the pixel effects\<close>

lemma length_for_each_pixel [simp]: "length (for_each_pixel f data) = length data"
  by (induction f data rule: for_each_pixel.induct) simp_all

lemma nth_for_each_pixel:
  assumes "i < length data"
  shows "for_each_pixel f data ! i = (if i mod 4 = 3 then data ! i else f (data ! i))"
  using assms
proof (induction f data arbitrary: i rule: for_each_pixel.induct)
  case (1 f r g b al rest)
  show ?case
  proof (cases "i < 4")
    case True
    then consider "i = 0" | "i = 1" | "i = 2" | "i = 3"
      by linarith
    then show ?thesis
      by cases simp_all
  next
    case False
    then obtain j where j: "i = j + 4"
      by (metis add.commute le_add_diff_inverse not_less)
    have "j < length rest"
      using "1.prems" j by simp
    then show ?thesis
      using "1.IH"[of j] by (simp add: j)
  qed
next
  case (2 f r g b)
  then consider "i = 0" | "i = 1" | "i = 2"
    by fastforce
  then show ?case
    by cases simp_all
next
  case (3 f r g)
  then consider "i = 0" | "i = 1"
    by fastforce
  then show ?case
    by cases simp_all
next
  case (4 f r)
  then show ?case by simp
next
  case (5 f)
  then show ?case by simp
qed

lemma toUint8Clamp_le: "toUint8Clamp v \<le> 255"
proof -
  have "\<lfloor>v\<rfloor> + 1 \<le> 255" if "v < 255"
    using that by linarith
  then show ?thesis
    by (auto simp: toUint8Clamp_def Let_def) linarith+
qed

lemma toUint8Clamp_close: "\<bar>real (toUint8Clamp v) - max 0 (min 255 v)\<bar> \<le> 1 / 2"
proof (cases "v \<le> 0 \<or> 255 \<le> v")
  case True
  then show ?thesis
    by (auto simp: toUint8Clamp_def)
next
  case False
  define f where "f = \<lfloor>v\<rfloor>"
  have f: "of_int f \<le> v" "v < of_int f + 1" "0 \<le> f"
    using False unfolding f_def by (linarith, linarith, simp)
  have m: "max 0 (min 255 v) = v"
    using False by simp
  have r: "real (nat f) = of_int f" "real (nat (f + 1)) = of_int f + 1"
    using f(3) by simp_all
  show ?thesis
    using False f r unfolding m toUint8Clamp_def Let_def f_def[symmetric]
    by (auto simp: abs_le_iff)
qed

lemma toUint8Clamp_nat:
  assumes "n \<le> 255"
  shows "toUint8Clamp (real n) = n"
  using assms by (auto simp: toUint8Clamp_def Let_def)



subsection \<open>What the effects compute in doubles\<close>

text \<open>
  The integers of the effects (channels, intensities, 50, 128, 255, 259 and their sums
  and products) are exact doubles. The brightness product and the contrast sum are within
  \<open>2 ^ - 40\<close> of the formula in real numbers.
\<close>

lemma num_of_int_small:
  assumes "\<bar>n\<bar> < 2 ^ 53"
  shows "num_of_int n = \<lparr>mant = n, expo = 0\<rparr>"
  using assms by (simp add: num_of_int_def round_exact)

lemma num_val_int [simp]: "num_val \<lparr>mant = n, expo = 0\<rparr> = of_int n"
  by (simp add: num_val_def)

lemma int_ops_small:
  assumes "\<bar>a + b\<bar> < 2 ^ 53" "\<bar>a - b\<bar> < 2 ^ 53" "\<bar>a * b\<bar> < 2 ^ 53"
  shows "num_add \<lparr>mant = a, expo = 0\<rparr> \<lparr>mant = b, expo = 0\<rparr> = \<lparr>mant = a + b, expo = 0\<rparr>"
    and "num_sub \<lparr>mant = a, expo = 0\<rparr> \<lparr>mant = b, expo = 0\<rparr> = \<lparr>mant = a - b, expo = 0\<rparr>"
    and "num_mul \<lparr>mant = a, expo = 0\<rparr> \<lparr>mant = b, expo = 0\<rparr> = \<lparr>mant = a * b, expo = 0\<rparr>"
  using assms by (simp_all add: num_add_def num_sub_def num_mul_def round_exact)

lemma toUint8Clamp_near:
  assumes "n \<le> 255" "\<bar>d - real n\<bar> < 1 / 2"
  shows "toUint8Clamp d = n"
proof (cases "d \<le> 0 \<or> 255 \<le> d")
  case True
  then show ?thesis
    using assms by (auto simp: toUint8Clamp_def)
next
  case False
  have lo: "real n - 1 / 2 < d" and hi: "d < real n + 1 / 2"
    using assms(2) by linarith+
  have "\<lfloor>d\<rfloor> = int n \<or> \<lfloor>d\<rfloor> = int n - 1"
  proof (cases "real n \<le> d")
    case True
    have "\<lfloor>d\<rfloor> = int n"
      by (rule floor_unique) (use True hi in simp_all)
    then show ?thesis ..
  next
    case False
    have "\<lfloor>d\<rfloor> = int n - 1"
      by (rule floor_unique) (use False lo in simp_all)
    then show ?thesis ..
  qed
  then show ?thesis
  proof
    assume f: "\<lfloor>d\<rfloor> = int n"
    then have "d < of_int \<lfloor>d\<rfloor> + 1 / 2"
      using hi by simp
    then show ?thesis
      using False f by (simp add: toUint8Clamp_def Let_def)
  next
    assume f: "\<lfloor>d\<rfloor> = int n - 1"
    then have "of_int \<lfloor>d\<rfloor> + 1 / 2 < d"
      using lo by simp
    then show ?thesis
      using False f by (simp add: toUint8Clamp_def Let_def)
  qed
qed


lemma brightness_double_close:
  assumes "v \<le> 100" "c \<le> 255"
  shows "\<bar>num_val (num_mul (num_of_int (int c)) (num_div (num_of_int (int v)) (num_of_int 50)))
          - real c * (real v / 50)\<bar> \<le> 1 / 2 ^ 40"
proof -
  define B where "B = num_div \<lparr>mant = int v, expo = 0\<rparr> \<lparr>mant = 50, expo = 0\<rparr>"
  define b where "b = num_val B"
  define x where "x = real v / 50"
  define p where "p = num_val (num_mul \<lparr>mant = int c, expo = 0\<rparr> B)"
  define u where "u = (1::real) / 2 ^ 52"
  have u: "0 \<le> u" "1 / 2 ^ 40 = 4096 * u"
    by (simp_all add: u_def)
  have ints: "num_of_int (int v) = \<lparr>mant = int v, expo = 0\<rparr>"
    "num_of_int (int c) = \<lparr>mant = int c, expo = 0\<rparr>"
    "num_of_int 50 = \<lparr>mant = 50, expo = 0\<rparr>"
    using assms by (simp_all add: num_of_int_small)
  have x: "0 \<le> x" "x \<le> 2"
    using assms(1) by (simp_all add: x_def)
  have "\<bar>b - x\<bar> \<le> \<bar>x\<bar> * u"
    using div_err[of "\<lparr>mant = int v, expo = 0\<rparr>" "\<lparr>mant = 50, expo = 0\<rparr>"]
    by (simp add: b_def B_def x_def u_def)
  also have "\<dots> \<le> 2 * u"
    using x u(1) by (intro mult_right_mono) simp_all
  finally have bx: "\<bar>b - x\<bar> \<le> 2 * u" .
  have "u \<le> 1"
    by (simp add: u_def)
  then have b3: "\<bar>b\<bar> \<le> 4"
    using bx x by linarith
  have c: "0 \<le> real c" "real c \<le> 255"
    using assms(2) by simp_all
  have "\<bar>real c * b\<bar> = real c * \<bar>b\<bar>"
    by (simp add: abs_mult)
  also have "\<dots> \<le> 255 * 4"
    using c b3 by (intro mult_mono) simp_all
  finally have cb: "\<bar>real c * b\<bar> \<le> 1020"
    by simp
  have "\<bar>p - real c * b\<bar> \<le> \<bar>real c * b\<bar> * (u / 2)"
    using mul_err[of "\<lparr>mant = int c, expo = 0\<rparr>" B] by (simp add: p_def b_def u_def)
  also have "\<dots> \<le> 1020 * (u / 2)"
    using cb u(1) by (intro mult_right_mono) simp_all
  finally have e1: "\<bar>p - real c * b\<bar> \<le> 510 * u"
    by simp
  have "\<bar>real c * b - real c * x\<bar> = real c * \<bar>b - x\<bar>"
    by (simp add: abs_mult right_diff_distrib[symmetric])
  also have "\<dots> \<le> 255 * (2 * u)"
    using c bx by (intro mult_mono) simp_all
  finally have e2: "\<bar>real c * b - real c * x\<bar> \<le> 510 * u"
    by simp
  have "\<bar>p - real c * x\<bar> \<le> 1 / 2 ^ 40"
    unfolding u(2) using e1 e2 u(1) by linarith
  then show ?thesis
    by (simp only: p_def B_def x_def ints)
qed


lemma contrast_ints:
  assumes "v \<le> 100"
  shows "contrast_divisor v = \<lparr>mant = 255 * (259 - int v), expo = 0\<rparr>"
    and "num_mul (num_of_int 259) (num_add (num_of_int (int v)) (num_of_int 255)) =
           \<lparr>mant = 259 * (int v + 255), expo = 0\<rparr>"
proof -
  have ints: "num_of_int (int v) = \<lparr>mant = int v, expo = 0\<rparr>"
    "num_of_int 259 = \<lparr>mant = 259, expo = 0\<rparr>" "num_of_int 255 = \<lparr>mant = 255, expo = 0\<rparr>"
    using assms by (simp_all add: num_of_int_small)
  have s: "num_sub \<lparr>mant = 259, expo = 0\<rparr> \<lparr>mant = int v, expo = 0\<rparr> =
             \<lparr>mant = 259 - int v, expo = 0\<rparr>"
    using assms by (intro int_ops_small) simp_all
  have a: "num_add \<lparr>mant = int v, expo = 0\<rparr> \<lparr>mant = 255, expo = 0\<rparr> =
             \<lparr>mant = int v + 255, expo = 0\<rparr>"
    using assms by (intro int_ops_small) simp_all
  have m1: "num_mul \<lparr>mant = 255, expo = 0\<rparr> \<lparr>mant = 259 - int v, expo = 0\<rparr> =
              \<lparr>mant = 255 * (259 - int v), expo = 0\<rparr>"
    using assms by (intro int_ops_small) simp_all
  have m2: "num_mul \<lparr>mant = 259, expo = 0\<rparr> \<lparr>mant = int v + 255, expo = 0\<rparr> =
              \<lparr>mant = 259 * (int v + 255), expo = 0\<rparr>"
    using assms by (intro int_ops_small) simp_all
  show "contrast_divisor v = \<lparr>mant = 255 * (259 - int v), expo = 0\<rparr>"
    by (simp only: contrast_divisor_def ints s m1)
  show "num_mul (num_of_int 259) (num_add (num_of_int (int v)) (num_of_int 255)) =
           \<lparr>mant = 259 * (int v + 255), expo = 0\<rparr>"
    by (simp only: ints a m2)
qed

lemma contrast_double_close:
  assumes "v \<le> 100" "c \<le> 255"
  shows "\<bar>num_val (num_add (num_mul (contrast_factor v)
                                 (num_sub (num_of_int (int c)) (num_of_int 128)))
                        (num_of_int 128))
          - (259 * (real v + 255) / (255 * (259 - real v)) * (real c - 128) + 128)\<bar>
         \<le> 1 / 2 ^ 40"
proof -
  define A where "A = \<lparr>mant = 259 * (int v + 255), expo = 0\<rparr>"
  define B where "B = \<lparr>mant = 255 * (259 - int v), expo = 0\<rparr>"
  define Fa where "Fa = num_div A B"
  define f where "f = num_val Fa"
  define F where "F = 259 * (real v + 255) / (255 * (259 - real v))"
  define d where "d = real c - 128"
  define T where "T = num_mul Fa \<lparr>mant = int c - 128, expo = 0\<rparr>"
  define t where "t = num_val T"
  define r where "r = num_val (num_add T \<lparr>mant = 128, expo = 0\<rparr>)"
  define u where "u = (1::real) / 2 ^ 52"
  have u: "0 \<le> u" "1 / 2 ^ 40 = 4096 * u" "u \<le> 1"
    by (simp_all add: u_def)
  have fac: "contrast_factor v = Fa"
    by (simp only: contrast_factor_def contrast_ints[OF assms(1)] Fa_def A_def B_def)
  have ints: "num_of_int (int c) = \<lparr>mant = int c, expo = 0\<rparr>"
    "num_of_int 128 = \<lparr>mant = 128, expo = 0\<rparr>"
    using assms by (simp_all add: num_of_int_small)
  have sub: "num_sub \<lparr>mant = int c, expo = 0\<rparr> \<lparr>mant = 128, expo = 0\<rparr> =
               \<lparr>mant = int c - 128, expo = 0\<rparr>"
    using assms(2) by (intro int_ops_small) simp_all
  have Fq: "num_val A / num_val B = F"
    by (simp add: A_def B_def F_def)
  have den: "0 < 255 * (259 - real v)"
    using assms(1) by simp
  have F0: "0 \<le> F"
    using den by (simp add: F_def)
  have "259 * (real v + 255) \<le> 3 * (255 * (259 - real v))"
    using assms(1) by simp
  then have F3: "F \<le> 3"
    using den unfolding F_def by (simp only: pos_divide_le_eq)
  have "\<bar>f - F\<bar> \<le> \<bar>F\<bar> * u"
    using div_err[of A B] assms(1) unfolding Fq
    by (simp add: f_def Fa_def u_def A_def B_def)
  also have "\<dots> \<le> 3 * u"
    using F0 F3 u(1) by (intro mult_right_mono) simp_all
  finally have fF: "\<bar>f - F\<bar> \<le> 3 * u" .
  then have f6: "\<bar>f\<bar> \<le> 6"
    using F0 F3 u(3) by linarith
  have d: "\<bar>d\<bar> \<le> 128"
    using assms(2) by (simp add: d_def abs_le_iff)
  have "\<bar>f * d\<bar> = \<bar>f\<bar> * \<bar>d\<bar>"
    by (simp add: abs_mult)
  also have "\<dots> \<le> 6 * 128"
    using f6 d by (intro mult_mono) simp_all
  finally have fd: "\<bar>f * d\<bar> \<le> 768"
    by simp
  have dval: "num_val \<lparr>mant = int c - 128, expo = 0\<rparr> = d"
    by (simp add: d_def)
  have "\<bar>t - f * d\<bar> \<le> \<bar>f * d\<bar> * (u / 2)"
    using mul_err[of Fa "\<lparr>mant = int c - 128, expo = 0\<rparr>"] unfolding dval
    by (simp add: t_def T_def f_def u_def)
  also have "\<dots> \<le> 768 * (u / 2)"
    using fd u(1) by (intro mult_right_mono) simp_all
  finally have e1: "\<bar>t - f * d\<bar> \<le> 384 * u"
    by simp
  then have t: "\<bar>t + 128\<bar> \<le> 1280"
    using fd u(3) by linarith
  have "\<bar>r - (t + 128)\<bar> \<le> \<bar>t + 128\<bar> * (u / 2)"
    using add_err[of T "\<lparr>mant = 128, expo = 0\<rparr>"] by (simp add: r_def t_def u_def)
  also have "\<dots> \<le> 1280 * (u / 2)"
    using t u(1) by (intro mult_right_mono) simp_all
  finally have e2: "\<bar>r - (t + 128)\<bar> \<le> 640 * u"
    by simp
  have "\<bar>f * d - F * d\<bar> = \<bar>f - F\<bar> * \<bar>d\<bar>"
    by (simp add: abs_mult left_diff_distrib[symmetric])
  also have "\<dots> \<le> (3 * u) * 128"
    using fF d by (intro mult_mono) (simp_all add: u(1))
  finally have e3: "\<bar>f * d - F * d\<bar> \<le> 384 * u"
    by simp
  have "\<bar>r - (F * d + 128)\<bar> \<le> 1 / 2 ^ 40"
    unfolding u(2) using e1 e2 e3 u(1) by linarith
  then show ?thesis
    by (simp only: r_def T_def fac ints sub F_def d_def)
qed


text \<open>
  The formulas' values are fractions of denominator 50 and \<open>255 * (259 - v)\<close>, below
  \<open>2 ^ 17\<close>: such a fraction is a half-integer or at least \<open>2 ^ - 18\<close> away from one. So the
  double, \<open>2 ^ - 40\<close> away, rounds to an integer that is nearest to the formula's value
  too; at a half-integer it may round to either neighbour.
\<close>

lemma half_step:
  fixes s D :: nat and x e :: real and k :: int
  assumes "0 < D" "\<bar>real s - x\<bar> \<le> 1 / 2 + e" "real D * e < 1 / 2" "real D * x = of_int k"
  shows "\<bar>real s - x\<bar> \<le> 1 / 2"
proof -
  define j where "j = int D * int s - k"
  have D: "0 < real D"
    using assms(1) by simp
  have j: "of_int j = real D * (real s - x)"
    by (simp add: j_def right_diff_distrib assms(4))
  have "\<bar>real_of_int j\<bar> = real D * \<bar>real s - x\<bar>"
    using D by (simp add: j abs_mult)
  also have "\<dots> \<le> real D * (1 / 2 + e)"
    using D assms(2) by (intro mult_left_mono) simp_all
  also have "\<dots> = real D / 2 + real D * e"
    by (simp add: algebra_simps)
  finally have "2 * \<bar>real_of_int j\<bar> < real D + 1"
    using assms(3) by linarith
  then have "real_of_int (2 * \<bar>j\<bar>) < real_of_int (int D + 1)"
    by simp
  then have "2 * \<bar>j\<bar> < int D + 1"
    by (simp only: of_int_less_iff)
  then have "2 * \<bar>j\<bar> \<le> int D"
    by linarith
  then have "real_of_int (2 * \<bar>j\<bar>) \<le> real_of_int (int D)"
    by (simp only: of_int_le_iff)
  then have "2 * (real D * \<bar>real s - x\<bar>) \<le> real D"
    using D by (simp add: j abs_mult)
  then have "real D * (2 * \<bar>real s - x\<bar>) \<le> real D * 1"
    by (simp add: algebra_simps)
  then have "2 * \<bar>real s - x\<bar> \<le> 1"
    using D by (simp only: mult_le_cancel_left_pos)
  then show ?thesis
    by simp
qed

lemma clamp_lipschitz:
  fixes a b :: real
  shows "\<bar>min 255 a - min 255 b\<bar> \<le> \<bar>a - b\<bar>"
    and "\<bar>max 0 (min 255 a) - max 0 (min 255 b)\<bar> \<le> \<bar>a - b\<bar>"
  by linarith+


lemma brightness_nth:
  assumes "i < length data"
  shows "brightness v data ! i =
           (if i mod 4 = 3 then data ! i
            else toUint8Clamp
                   (min 255
                      (num_val (num_mul (num_of_int (int (data ! i)))
                                  (num_div (num_of_int (int v)) (num_of_int 50))))))"
  using assms by (simp add: brightness_def nth_for_each_pixel)

lemma contrast_nth:
  assumes "i < length data" "v \<le> 100"
  shows "contrast v data ! i =
           (if i mod 4 = 3 then data ! i
            else toUint8Clamp
                   (num_val (num_add (num_mul (contrast_factor v)
                                        (num_sub (num_of_int (int (data ! i))) (num_of_int 128)))
                               (num_of_int 128))))"
proof -
  have "mant (contrast_divisor v) \<noteq> 0"
    using assms(2) by (simp add: contrast_ints)
  then show ?thesis
    using assms(1) by (simp add: contrast_def nth_for_each_pixel)
qed

lemma brightness_channel:
  assumes "v \<le> 100" "c \<le> 255"
  defines "d \<equiv> min 255 (num_val (num_mul (num_of_int (int c))
                                     (num_div (num_of_int (int v)) (num_of_int 50))))"
  defines "x \<equiv> min 255 (real c * (real v / 50))"
  shows "\<bar>d - x\<bar> \<le> 1 / 2 ^ 40" and "\<bar>real (toUint8Clamp d) - x\<bar> \<le> 1 / 2"
proof -
  show dx: "\<bar>d - x\<bar> \<le> 1 / 2 ^ 40"
    unfolding d_def x_def
    using brightness_double_close[OF assms(1,2)] clamp_lipschitz(1) by (rule order_trans[rotated])
  have x0: "0 \<le> x" "x \<le> 255"
    by (simp_all add: x_def)
  have "\<bar>max 0 (min 255 d) - max 0 (min 255 x)\<bar> \<le> \<bar>d - x\<bar>"
    by (rule clamp_lipschitz(2))
  moreover have "max 0 (min 255 x) = x"
    using x0 by simp
  ultimately have "\<bar>max 0 (min 255 d) - x\<bar> \<le> 1 / 2 ^ 40"
    using dx by simp
  then have near: "\<bar>real (toUint8Clamp d) - x\<bar> \<le> 1 / 2 + 1 / 2 ^ 40"
    using toUint8Clamp_close[of d] by linarith
  define n where "n = c * v"
  have "real c * (real v / 50) = real n / 50"
    by (simp add: n_def)
  then have "real 50 * x = min 12750 (real n)"
    unfolding x_def by (simp add: min_def)
  also have "\<dots> = real (min 12750 n)"
    by (simp add: min_def)
  finally have eqk: "real 50 * x = of_int (int (min 12750 n))"
    by simp
  have small: "real 50 * (1 / 2 ^ 40) < 1 / 2"
    by simp
  have pos: "0 < (50::nat)"
    by simp
  show "\<bar>real (toUint8Clamp d) - x\<bar> \<le> 1 / 2"
    by (rule half_step[OF pos near small eqk])
qed


lemma contrast_channel:
  assumes "v \<le> 100" "c \<le> 255"
  defines "d \<equiv> num_val (num_add (num_mul (contrast_factor v)
                                       (num_sub (num_of_int (int c)) (num_of_int 128)))
                              (num_of_int 128))"
  defines "y \<equiv> 259 * (real v + 255) / (255 * (259 - real v)) * (real c - 128) + 128"
  shows "\<bar>d - y\<bar> \<le> 1 / 2 ^ 40" and "\<bar>real (toUint8Clamp d) - max 0 (min 255 y)\<bar> \<le> 1 / 2"
proof -
  show dy: "\<bar>d - y\<bar> \<le> 1 / 2 ^ 40"
    unfolding d_def y_def by (rule contrast_double_close[OF assms(1,2)])
  define x where "x = max 0 (min 255 y)"
  have "\<bar>max 0 (min 255 d) - x\<bar> \<le> \<bar>d - y\<bar>"
    unfolding x_def by (rule clamp_lipschitz(2))
  then have "\<bar>max 0 (min 255 d) - x\<bar> \<le> 1 / 2 ^ 40"
    using dy by (rule order_trans)
  then have near: "\<bar>real (toUint8Clamp d) - x\<bar> \<le> 1 / 2 + 1 / 2 ^ 40"
    using toUint8Clamp_close[of d] by linarith
  define D where "D = 255 * (259 - v)"
  define K where "K = 259 * (int v + 255) * (int c - 128) + 128 * int D"
  have Dr: "real D = 255 * (259 - real v)"
    using assms(1) by (simp add: D_def)
  have pos: "0 < D"
    using assms(1) by (simp add: D_def)
  have Dpos: "0 < real D"
    using pos by simp
  have "y = 259 * (real v + 255) / real D * (real c - 128) + 128"
    by (simp only: y_def Dr)
  then have "real D * y = 259 * (real v + 255) * (real c - 128) + 128 * real D"
    using Dpos by (simp add: field_simps)
  also have "\<dots> = of_int K"
    by (simp add: K_def)
  finally have Dy: "real D * y = of_int K" .
  have "real D * x = max 0 (min (255 * real D) (real D * y))"
    using Dpos unfolding x_def
    by (simp add: max_mult_distrib_left min_mult_distrib_left mult.commute)
  also have "\<dots> = max 0 (min (255 * real D) (of_int K))"
    by (simp only: Dy)
  also have "\<dots> = of_int (max 0 (min (255 * int D) K))"
    by (simp add: max_def min_def)
  finally have eqk: "real D * x = of_int (max 0 (min (255 * int D) K))" .
  have "D \<le> 66045"
    by (simp add: D_def)
  then have "real D \<le> 66045"
    by linarith
  then have "real D * (1 / 2 ^ 40) \<le> 66045 * (1 / 2 ^ 40)"
    by (intro mult_right_mono) simp_all
  also have "\<dots> < 1 / 2"
    by simp
  finally have small: "real D * (1 / 2 ^ 40) < 1 / 2" .
  show "\<bar>real (toUint8Clamp d) - max 0 (min 255 y)\<bar> \<le> 1 / 2"
    unfolding x_def[symmetric] by (rule half_step[OF pos near small eqk])
qed

lemma brightness_exact:
  assumes "v \<le> 100" "c \<le> 255" "n \<le> 255" "min 255 (real c * (real v / 50)) = real n"
  shows "toUint8Clamp (min 255 (num_val (num_mul (num_of_int (int c))
                                          (num_div (num_of_int (int v)) (num_of_int 50))))) = n"
proof -
  have "(1::real) / 2 ^ 40 < 1 / 2"
    by simp
  then show ?thesis
    using brightness_channel(1)[OF assms(1,2)] unfolding assms(4)
    by (intro toUint8Clamp_near[OF assms(3)]) (rule le_less_trans)
qed

lemma brightness_50:
  assumes "list_all (\<lambda>c. c \<le> 255) data"
  shows "brightness 50 data = data"
proof (rule nth_equalityI)
  show "length (brightness 50 data) = length data"
    by (simp add: brightness_def)
next
  fix i assume "i < length (brightness 50 data)"
  then have i: "i < length data"
    by (simp add: brightness_def)
  then have c: "data ! i \<le> 255"
    using assms by (simp add: list_all_length)
  then have "min 255 (real (data ! i) * (real 50 / 50)) = real (data ! i)"
    by simp
  then have "toUint8Clamp (min 255 (num_val (num_mul (num_of_int (int (data ! i)))
                (num_div (num_of_int (int 50)) (num_of_int 50))))) = data ! i"
    by (intro brightness_exact[of 50, OF _ c c]) simp_all
  then show "brightness 50 data ! i = data ! i"
    by (simp add: brightness_nth[OF i])
qed

lemma brightness_100:
  assumes "c \<le> 255"
  shows "toUint8Clamp (min 255 (num_val (num_mul (num_of_int (int c))
                                          (num_div (num_of_int 100) (num_of_int 50))))) =
         min 255 (2 * c)"
proof -
  have "min 255 (real c * (real 100 / 50)) = real (min 255 (2 * c))"
    by (simp add: min_def)
  then have "toUint8Clamp (min 255 (num_val (num_mul (num_of_int (int c))
                (num_div (num_of_int (int 100)) (num_of_int 50))))) = min 255 (2 * c)"
    by (intro brightness_exact[of 100 c "min 255 (2 * c)"]) (use assms in simp_all)
  then show ?thesis
    by simp
qed

text \<open>
  Claim C8: for an intensity \<open>v\<close> between 0 and 100 (an integer, as the slider gives it)
  and channel values up to 255, both effects leave every alpha channel (index 3 mod 4) as
  it is. On a colour channel \<open>c\<close> the
  brightness effect stores the product \<open>c * (v / 50)\<close> capped at 255, and the contrast
  effect stores \<open>factor * (c - 128) + 128\<close>, clamped to 0 .. 255, where \<open>factor\<close> is
  \<open>259 * (v + 255) / (255 * (259 - v))\<close>. The program computes both in doubles and the
  array holds integers: what is stored is the double's value rounded, and it is an integer
  nearest to the value of the formula in real numbers, at most 1/2 away. Intensity 50
  leaves the whole array unchanged, and intensity 100 stores \<open>min 255 (2 * c)\<close>.
\<close>

theorem pixel_effects:
  assumes "v \<le> 100" "list_all (\<lambda>c. c \<le> 255) data" "i < length data"
  shows "length (brightness v data) = length data \<and> length (contrast v data) = length data \<and>
         (i mod 4 = 3 \<longrightarrow> brightness v data ! i = data ! i \<and> contrast v data ! i = data ! i) \<and>
         (i mod 4 \<noteq> 3 \<longrightarrow>
            brightness v data ! i =
              toUint8Clamp
                (min 255 (num_val (num_mul (num_of_int (int (data ! i)))
                                     (num_div (num_of_int (int v)) (num_of_int 50))))) \<and>
            \<bar>real (brightness v data ! i) - min 255 (real (data ! i) * (real v / 50))\<bar> \<le> 1 / 2 \<and>
            brightness v data ! i \<le> 255 \<and>
            contrast v data ! i =
              toUint8Clamp
                (num_val (num_add (num_mul (contrast_factor v)
                                     (num_sub (num_of_int (int (data ! i))) (num_of_int 128)))
                            (num_of_int 128))) \<and>
            \<bar>real (contrast v data ! i) -
               max 0 (min 255 (259 * (real v + 255) / (255 * (259 - real v)) *
                                 (real (data ! i) - 128) + 128))\<bar> \<le> 1 / 2 \<and>
            contrast v data ! i \<le> 255 \<and>
            brightness 100 data ! i = min 255 (2 * data ! i)) \<and>
         brightness 50 data = data"
proof -
  have c: "data ! i \<le> 255"
    using assms(2,3) by (simp add: list_all_length)
  have len: "length (brightness v data) = length data \<and> length (contrast v data) = length data"
    by (simp add: brightness_def contrast_def)
  have alpha: "i mod 4 = 3 \<longrightarrow>
                 brightness v data ! i = data ! i \<and> contrast v data ! i = data ! i"
    by (simp add: brightness_nth[OF assms(3)] contrast_nth[OF assms(3,1)])
  have rgb: "i mod 4 \<noteq> 3 \<longrightarrow>
            brightness v data ! i =
              toUint8Clamp
                (min 255 (num_val (num_mul (num_of_int (int (data ! i)))
                                     (num_div (num_of_int (int v)) (num_of_int 50))))) \<and>
            \<bar>real (brightness v data ! i) - min 255 (real (data ! i) * (real v / 50))\<bar> \<le> 1 / 2 \<and>
            brightness v data ! i \<le> 255 \<and>
            contrast v data ! i =
              toUint8Clamp
                (num_val (num_add (num_mul (contrast_factor v)
                                     (num_sub (num_of_int (int (data ! i))) (num_of_int 128)))
                            (num_of_int 128))) \<and>
            \<bar>real (contrast v data ! i) -
               max 0 (min 255 (259 * (real v + 255) / (255 * (259 - real v)) *
                                 (real (data ! i) - 128) + 128))\<bar> \<le> 1 / 2 \<and>
            contrast v data ! i \<le> 255 \<and>
            brightness 100 data ! i = min 255 (2 * data ! i)"
    using brightness_channel(2)[OF assms(1) c] contrast_channel(2)[OF assms(1) c]
      toUint8Clamp_le brightness_100[OF c]
    by (simp add: brightness_nth[OF assms(3)] contrast_nth[OF assms(3,1)])
  show ?thesis
    using len alpha rgb brightness_50[OF assms(2)] by blast
qed

theorem pixel_effects_witness:
  "(100::nat) \<le> 100 \<and> list_all (\<lambda>c. c \<le> 255) two_pixels \<and> 4 < length two_pixels \<and>
   brightness 100 two_pixels ! 4 = 2 \<and> real (brightness 100 two_pixels ! 4) = 2 \<and>
   brightness 50 two_pixels = two_pixels"
proof -
  have v: "(100::nat) \<le> 100"
    by simp
  have d: "list_all (\<lambda>c. c \<le> 255) two_pixels"
    by (simp add: two_pixels_def)
  have i: "4 < length two_pixels"
    by (simp add: two_pixels_def)
  have c: "two_pixels ! 4 = 1"
    by (simp add: two_pixels_def)
  show ?thesis
    using pixel_effects[OF v d i] v d i by (simp add: c)
qed

text \<open>
  At an exact tie of the formula the double decides. \<open>7 / 50\<close> rounds up, so that
  \<open>75 * (7 / 50)\<close> is above 10.5 and 11 is stored, where rounding 10.5 to even gives 10;
  \<open>35 / 50\<close> rounds down, so that \<open>45 * (35 / 50)\<close> is below 31.5 and 31 is stored, where
  rounding 31.5 to even gives 32. Both are within 1/2 of the formula's value.
\<close>

lemma tie_div_7: "num_div \<lparr>mant = 7, expo = 0\<rparr> \<lparr>mant = 50, expo = 0\<rparr> =
    \<lparr>mant = 5044031582654956, expo = - 55\<rparr>"
  by code_simp

lemma tie_div_35: "num_div \<lparr>mant = 35, expo = 0\<rparr> \<lparr>mant = 50, expo = 0\<rparr> =
    \<lparr>mant = 6305039478318694, expo = - 53\<rparr>"
  by code_simp

lemma tie_mul_75:
  "num_mul \<lparr>mant = 75, expo = 0\<rparr> \<lparr>mant = 5044031582654956, expo = - 55\<rparr> =
     \<lparr>mant = 5910974510923777, expo = - 49\<rparr>"
  by (simp add: num_mul_def round_to_double_def compute_bitlen Let_def)

lemma tie_mul_45:
  "num_mul \<lparr>mant = 45, expo = 0\<rparr> \<lparr>mant = 6305039478318694, expo = - 53\<rparr> =
     \<lparr>mant = 8866461766385663, expo = - 48\<rparr>"
  by (simp add: num_mul_def round_to_double_def compute_bitlen Let_def)

lemma brightness_ties:
  "brightness 7 tie_pixels ! 0 = 11 \<and> toUint8Clamp (real 75 * (real 7 / 50)) = 10 \<and>
   brightness 35 tie_pixels ! 1 = 31 \<and> toUint8Clamp (real 45 * (real 35 / 50)) = 32"
proof -
  have ints: "num_of_int 7 = \<lparr>mant = 7, expo = 0\<rparr>" "num_of_int 35 = \<lparr>mant = 35, expo = 0\<rparr>"
    "num_of_int 50 = \<lparr>mant = 50, expo = 0\<rparr>" "num_of_int 75 = \<lparr>mant = 75, expo = 0\<rparr>"
    "num_of_int 45 = \<lparr>mant = 45, expo = 0\<rparr>"
    by (simp_all add: num_of_int_small)
  have a: "brightness 7 tie_pixels ! 0 = 11"
    by (simp add: brightness_nth tie_pixels_def ints tie_div_7 tie_mul_75)
      (simp add: num_val_def toUint8Clamp_def)
  have b: "brightness 35 tie_pixels ! 1 = 31"
    by (simp add: brightness_nth tie_pixels_def ints tie_div_35 tie_mul_45)
      (simp add: num_val_def toUint8Clamp_def)
  have c: "toUint8Clamp (real 75 * (real 7 / 50)) = 10"
    "toUint8Clamp (real 45 * (real 35 / 50)) = 32"
    by (simp_all add: toUint8Clamp_def)
  show ?thesis
    using a b c by simp
qed

section \<open>Properties of the JPEG export\<close>

text \<open>The two literals are within half a unit in the last place of 9/10 and 1/10.\<close>

lemma literals_nearest:
  "\<bar>num_val num_0_9 - 9 / 10\<bar> \<le> 1 / 2 ^ 54 \<and> \<bar>num_val num_0_1 - 1 / 10\<bar> \<le> 1 / 2 ^ 57"
  by (simp add: num_val_def num_0_9_def num_0_1_def)

text \<open>
  The ten qualities: 0.9, 0.8, 0.7000000000000001, 0.6000000000000001, 0.5000000000000001,
  0.40000000000000013, 0.30000000000000016, 0.20000000000000015, 0.10000000000000014 and
  1.3877787807814457e-16.
\<close>

lemmas num_eval =
  num_sub_def num_0_1_def round_to_double_def compute_bitlen Let_def

lemma quality_step_1:
  "num_sub num_0_9 num_0_1 = \<lparr>mant = 7205759403792794, expo = - 53\<rparr>"
  by (simp add: num_0_9_def num_eval)

lemma quality_step_2:
  "num_sub \<lparr>mant = 7205759403792794, expo = - 53\<rparr> num_0_1 =
     \<lparr>mant = 6305039478318695, expo = - 53\<rparr>"
  by (simp add: num_eval)

lemma quality_step_3:
  "num_sub \<lparr>mant = 6305039478318695, expo = - 53\<rparr> num_0_1 =
     \<lparr>mant = 5404319552844596, expo = - 53\<rparr>"
  by (simp add: num_eval)

lemma quality_step_4:
  "num_sub \<lparr>mant = 5404319552844596, expo = - 53\<rparr> num_0_1 =
     \<lparr>mant = 4503599627370497, expo = - 53\<rparr>"
  by (simp add: num_eval)

lemma quality_step_5:
  "num_sub \<lparr>mant = 4503599627370497, expo = - 53\<rparr> num_0_1 =
     \<lparr>mant = 7205759403792796, expo = - 54\<rparr>"
  by (simp add: num_eval)

lemma quality_step_6:
  "num_sub \<lparr>mant = 7205759403792796, expo = - 54\<rparr> num_0_1 =
     \<lparr>mant = 5404319552844598, expo = - 54\<rparr>"
  by (simp add: num_eval)

lemma quality_step_7:
  "num_sub \<lparr>mant = 5404319552844598, expo = - 54\<rparr> num_0_1 =
     \<lparr>mant = 7205759403792799, expo = - 55\<rparr>"
  by (simp add: num_eval)

lemma quality_step_8:
  "num_sub \<lparr>mant = 7205759403792799, expo = - 55\<rparr> num_0_1 =
     \<lparr>mant = 7205759403792804, expo = - 56\<rparr>"
  by (simp add: num_eval)

lemma quality_step_9:
  "num_sub \<lparr>mant = 7205759403792804, expo = - 56\<rparr> num_0_1 = \<lparr>mant = 10, expo = - 56\<rparr>"
  by (simp add: num_eval)

lemmas quality_steps =
  quality_step_1 quality_step_2 quality_step_3 quality_step_4 quality_step_5
  quality_step_6 quality_step_7 quality_step_8 quality_step_9

lemma quality_values:
  "quality_at 0 = num_0_9"
  "quality_at 1 = \<lparr>mant = 7205759403792794, expo = - 53\<rparr>"
  "quality_at 2 = \<lparr>mant = 6305039478318695, expo = - 53\<rparr>"
  "quality_at 3 = \<lparr>mant = 5404319552844596, expo = - 53\<rparr>"
  "quality_at 4 = \<lparr>mant = 4503599627370497, expo = - 53\<rparr>"
  "quality_at 5 = \<lparr>mant = 7205759403792796, expo = - 54\<rparr>"
  "quality_at 6 = \<lparr>mant = 5404319552844598, expo = - 54\<rparr>"
  "quality_at 7 = \<lparr>mant = 7205759403792799, expo = - 55\<rparr>"
  "quality_at 8 = \<lparr>mant = 7205759403792804, expo = - 56\<rparr>"
  "quality_at 9 = \<lparr>mant = 10, expo = - 56\<rparr>"
  by (simp_all add: eval_nat_numeral quality_steps)


lemma floor_checks:
  "num_greater num_0_9 num_0_1"
  "num_greater \<lparr>mant = 7205759403792794, expo = - 53\<rparr> num_0_1"
  "num_greater \<lparr>mant = 6305039478318695, expo = - 53\<rparr> num_0_1"
  "num_greater \<lparr>mant = 5404319552844596, expo = - 53\<rparr> num_0_1"
  "num_greater \<lparr>mant = 4503599627370497, expo = - 53\<rparr> num_0_1"
  "num_greater \<lparr>mant = 7205759403792796, expo = - 54\<rparr> num_0_1"
  "num_greater \<lparr>mant = 5404319552844598, expo = - 54\<rparr> num_0_1"
  "num_greater \<lparr>mant = 7205759403792799, expo = - 55\<rparr> num_0_1"
  "num_greater \<lparr>mant = 7205759403792804, expo = - 56\<rparr> num_0_1"
  "\<not> num_greater \<lparr>mant = 10, expo = - 56\<rparr> num_0_1"
  by (simp_all add: num_greater_def num_0_9_def num_0_1_def Let_def)

lemma lowest_checks:
  "num_greater num_0_9 \<lparr>mant = 10, expo = - 56\<rparr>"
  "num_greater \<lparr>mant = 7205759403792794, expo = - 53\<rparr> \<lparr>mant = 10, expo = - 56\<rparr>"
  "num_greater \<lparr>mant = 6305039478318695, expo = - 53\<rparr> \<lparr>mant = 10, expo = - 56\<rparr>"
  "num_greater \<lparr>mant = 5404319552844596, expo = - 53\<rparr> \<lparr>mant = 10, expo = - 56\<rparr>"
  "num_greater \<lparr>mant = 4503599627370497, expo = - 53\<rparr> \<lparr>mant = 10, expo = - 56\<rparr>"
  "num_greater \<lparr>mant = 7205759403792796, expo = - 54\<rparr> \<lparr>mant = 10, expo = - 56\<rparr>"
  "num_greater \<lparr>mant = 5404319552844598, expo = - 54\<rparr> \<lparr>mant = 10, expo = - 56\<rparr>"
  "num_greater \<lparr>mant = 7205759403792799, expo = - 55\<rparr> \<lparr>mant = 10, expo = - 56\<rparr>"
  "num_greater \<lparr>mant = 7205759403792804, expo = - 56\<rparr> \<lparr>mant = 10, expo = - 56\<rparr>"
  by (simp_all add: num_greater_def num_0_9_def Let_def)

lemma above_floor:
  assumes "k \<le> 8"
  shows "num_greater (quality_at k) num_0_1"
proof -
  from assms consider "k = 0" | "k = 1" | "k = 2" | "k = 3" | "k = 4" | "k = 5" | "k = 6"
    | "k = 7" | "k = 8"
    by linarith
  then show ?thesis
    by cases (simp_all only: quality_values floor_checks)
qed

lemma at_floor: "\<not> num_greater (quality_at 9) num_0_1"
  by (simp only: quality_values floor_checks not_False_eq_True)

lemma lowest_quality:
  assumes "k < 9"
  shows "num_greater (quality_at k) (quality_at 9)"
proof -
  from assms consider "k = 0" | "k = 1" | "k = 2" | "k = 3" | "k = 4" | "k = 5" | "k = 6"
    | "k = 7" | "k = 8"
    by linarith
  then show ?thesis
    by cases (simp_all only: quality_values lowest_checks)
qed

lemma quality_loop_from:
  assumes "a \<le> 9"
  shows "\<exists>n. a \<le> n \<and> n \<le> 9 \<and>
           quality_loop enc T (enc (quality_at a)) (quality_at a) a =
             (enc (quality_at n), quality_at n, n) \<and>
           (\<forall>k. a \<le> k \<and> k < n \<longrightarrow> real (length (enc (quality_at k))) * 0.75 > real T) \<and>
           (\<not> real (length (enc (quality_at n))) * 0.75 > real T \<or> n = 9)"
  using assms
proof (induction "9 - a" arbitrary: a)
  case 0
  then have a: "a = 9"
    by simp
  have "quality_loop enc T (enc (quality_at 9)) (quality_at 9) 9 =
          (enc (quality_at 9), quality_at 9, 9)"
    using at_floor by (subst quality_loop.simps) simp
  then show ?case
    unfolding a by (intro exI[of _ 9]) simp
next
  case (Suc d)
  then have a8: "a \<le> 8"
    by simp
  show ?case
  proof (cases "real (length (enc (quality_at a))) * 0.75 > real T")
    case False
    then have "quality_loop enc T (enc (quality_at a)) (quality_at a) a =
                 (enc (quality_at a), quality_at a, a)"
      by (subst quality_loop.simps) simp
    then show ?thesis
      using False Suc.prems by (intro exI[of _ a]) simp
  next
    case True
    have step: "quality_loop enc T (enc (quality_at a)) (quality_at a) a =
                  quality_loop enc T (enc (quality_at (Suc a))) (quality_at (Suc a)) (Suc a)"
      using True above_floor[OF a8] a8 by (subst quality_loop.simps) (simp add: Let_def)
    have "d = 9 - Suc a" "Suc a \<le> 9"
      using Suc.hyps(2) a8 by simp_all
    from Suc.hyps(1)[OF this] obtain n where n: "Suc a \<le> n" "n \<le> 9"
      "quality_loop enc T (enc (quality_at (Suc a))) (quality_at (Suc a)) (Suc a) =
         (enc (quality_at n), quality_at n, n)"
      "\<forall>k. Suc a \<le> k \<and> k < n \<longrightarrow> real (length (enc (quality_at k))) * 0.75 > real T"
      "\<not> real (length (enc (quality_at n))) * 0.75 > real T \<or> n = 9"
      by blast
    have "\<forall>k. a \<le> k \<and> k < n \<longrightarrow> real (length (enc (quality_at k))) * 0.75 > real T"
    proof (intro allI impI)
      fix k assume k: "a \<le> k \<and> k < n"
      show "real (length (enc (quality_at k))) * 0.75 > real T"
      proof (cases "k = a")
        case True
        with \<open>real (length (enc (quality_at a))) * 0.75 > real T\<close> show ?thesis by simp
      next
        case False
        with k have "Suc a \<le> k \<and> k < n" by simp
        with n(4) show ?thesis by blast
      qed
    qed
    with n step show ?thesis
      by (intro exI[of _ n]) simp
  qed
qed


text \<open>
  Claim C3: with a byte budget of \<open>kb\<close> KB the export encodes first at quality 0.9 and then,
  while the estimate (length times 0.75) of the last encoding exceeds the budget, at the
  quality lowered by 0.1. It ends with the encoding number \<open>n + 1\<close>, for an \<open>n\<close> of at most 9,
  and returns that last encoding; every earlier encoding was over the budget, and the last
  one is within the budget unless \<open>n = 9\<close>. At \<open>n = 9\<close>, and not before, the quality is no
  longer above 0.1, so the loop ends there for the quality floor; its attempt counter, 9,
  is still below 10. When no encoding can meet the budget, the export therefore returns
  the tenth encoding, whose quality is the lowest of the ten.
\<close>

theorem export_jpeg_budget:
  assumes "0 < kb"
  shows "\<exists>n\<le>9.
           export_jpeg enc (Some kb) = enc (quality_at n) \<and>
           quality_loop enc (kb * 1024) (enc num_0_9) num_0_9 0 =
             (enc (quality_at n), quality_at n, n) \<and>
           (\<forall>k<n. real (length (enc (quality_at k))) * 0.75 > real (kb * 1024)) \<and>
           (\<not> real (length (enc (quality_at n))) * 0.75 > real (kb * 1024) \<or> n = 9) \<and>
           (num_greater (quality_at n) num_0_1 \<longleftrightarrow> n < 9) \<and>
           ((\<forall>q. real (length (enc q)) * 0.75 > real (kb * 1024)) \<longrightarrow>
              n = 9 \<and> (\<forall>k<9. num_greater (quality_at k) (quality_at 9)))"
proof -
  obtain n where n: "n \<le> 9"
    "quality_loop enc (kb * 1024) (enc (quality_at 0)) (quality_at 0) 0 =
       (enc (quality_at n), quality_at n, n)"
    "\<forall>k. 0 \<le> k \<and> k < n \<longrightarrow> real (length (enc (quality_at k))) * 0.75 > real (kb * 1024)"
    "\<not> real (length (enc (quality_at n))) * 0.75 > real (kb * 1024) \<or> n = 9"
    using quality_loop_from[of 0 enc "kb * 1024"] by auto
  have loop: "quality_loop enc (kb * 1024) (enc num_0_9) num_0_9 0 =
                (enc (quality_at n), quality_at n, n)"
    using n(2) by simp
  have ex: "export_jpeg enc (Some kb) = enc (quality_at n)"
    using assms by (simp add: export_jpeg_def loop)
  have earlier: "\<forall>k<n. real (length (enc (quality_at k))) * 0.75 > real (kb * 1024)"
    using n(3) by simp
  have floor: "num_greater (quality_at n) num_0_1 \<longleftrightarrow> n < 9"
  proof (cases "n = 9")
    case True
    then show ?thesis using at_floor by simp
  next
    case False
    with n(1) have "n \<le> 8" by simp
    then show ?thesis using above_floor[of n] by simp
  qed
  have never: "n = 9 \<and> (\<forall>k<9. num_greater (quality_at k) (quality_at 9))"
    if "\<forall>q. real (length (enc q)) * 0.75 > real (kb * 1024)"
    using that n(4) lowest_quality by blast
  show ?thesis
    using n(1) ex loop earlier n(4) floor never by blast
qed

theorem export_jpeg_budget_witness:
  "(0::nat) < 120 \<and>
   export_jpeg big_encoder (Some 120) = big_encoder \<lparr>mant = 10, expo = - 56\<rparr> \<and>
   quality_loop big_encoder (120 * 1024) (big_encoder num_0_9) num_0_9 0 =
     (big_encoder \<lparr>mant = 10, expo = - 56\<rparr>, \<lparr>mant = 10, expo = - 56\<rparr>, 9)"
proof -
  have kb: "(0::nat) < 120"
    by simp
  have over: "\<forall>q. real (length (big_encoder q)) * 0.75 > real (120 * 1024)"
    by (simp add: big_encoder_def)
  obtain n where "export_jpeg big_encoder (Some 120) = big_encoder (quality_at n)"
    "quality_loop big_encoder (120 * 1024) (big_encoder num_0_9) num_0_9 0 =
       (big_encoder (quality_at n), quality_at n, n)" "n = 9"
    using export_jpeg_budget[OF kb, of big_encoder] over by blast
  then show ?thesis
    using kb by (simp add: quality_values)
qed

section \<open>Properties of the upload path\<close>

lemma saveImage_originals:
  assumes "r \<in> set (images (snd (saveImage now f p lp lf db)))"
  shows "r \<in> set (images db) \<or> originalFile r = f"
proof (cases "where_fileName_equals (name f) db")
  case Nil
  with assms show ?thesis
    by (auto simp: saveImage_def table_add_def)
next
  case (Cons e es)
  with assms show ?thesis
    by (auto simp: saveImage_def table_update_def apply_changes_def split: if_splits)
qed

lemma saveImage_has_row:
  "\<exists>r \<in> set (images (snd (saveImage now f p lp lf db))).
      fileName r = name f \<and> originalFile r = f \<and> processedFile r = p"
proof (cases "where_fileName_equals (name f) db")
  case Nil
  then show ?thesis
    by (simp add: saveImage_def table_add_def)
next
  case (Cons e es)
  then have "e \<in> set (filter (\<lambda>r. fileName r = name f) (images db))"
    by (simp add: where_fileName_equals_def)
  then have mem: "e \<in> set (images db)"
    by simp
  let ?d = "\<lparr>originalFile = f, processedFile = p, fileName = name f, lastPreset = lp,
             lastFormat = lf, createdAt = createdAt e, updatedAt = now\<rparr>"
  have "apply_changes ?d e \<in> set (images (snd (saveImage now f p lp lf db)))"
    using mem by (force simp: saveImage_def Cons table_update_def)
  then show ?thesis
    by (rule bexI[rotated]) (simp add: apply_changes_def)
qed

lemma persist_loop_originals:
  assumes "r \<in> set (images (persist_loop env fs t db))"
  shows "r \<in> set (images db) \<or> originalFile r \<in> set fs"
  using assms
proof (induction env fs t db rule: persist_loop.induct)
  case (1 env t db)
  then show ?case by simp
next
  case (2 env f rest t db)
  let ?db1 = "snd (saveImage (clock env t) f None None None db)"
  show ?case
  proof (cases "processImages env f")
    case None
    with 2 have "r \<in> set (images ?db1) \<or> originalFile r \<in> set rest"
      by (simp add: Let_def)
    then show ?thesis
      using saveImage_originals[of r "clock env t" f None None None db] by auto
  next
    case (Some result)
    let ?db2 = "snd (saveImage (clock env (t + 1)) f (Some result) None None ?db1)"
    from 2 Some have "r \<in> set (images ?db2) \<or> originalFile r \<in> set rest"
      by (simp add: Let_def)
    then show ?thesis
      using saveImage_originals[of r "clock env (t + 1)" f "Some result" None None ?db1]
        saveImage_originals[of r "clock env t" f None None None db]
      by auto
  qed
qed


lemma resize_cases:
  "resizeImageForProcessing env f m =
     (case decode env f of
        None \<Rightarrow> f
      | Some (w, h) \<Rightarrow>
          if has_context env
          then (case toBlob env
                       \<lparr>canvas_width = (if h > m then Math_round (real m * (real w / real h)) else w),
                        canvas_height = (if h > m then m else h), drawn = f\<rparr> (mime f) num_0_9 of
                  None \<Rightarrow> f
                | Some b \<Rightarrow> f\<lparr>content := b\<rparr>)
          else f)"
  by (cases f) (simp add: resizeImageForProcessing_def Let_def split: option.splits prod.splits)

lemma name_resize [simp]: "name (resizeImageForProcessing env f m) = name f"
  by (simp add: resize_cases split: option.splits prod.splits)

lemma Math_round_close:
  assumes "0 \<le> v"
  shows "\<bar>real (Math_round v) - v\<bar> \<le> 1 / 2"
proof -
  define F where "F = (of_int \<lfloor>v + 1 / 2\<rfloor> :: real)"
  have nn: "0 \<le> \<lfloor>v + 1 / 2\<rfloor>"
    using assms by simp
  have eq: "real (Math_round v) = F"
    using nn by (simp add: Math_round_def F_def)
  have a: "F \<le> v + 1 / 2" and b: "v + 1 / 2 < F + 1"
    unfolding F_def by linarith+
  have "F - v \<le> 1 / 2" and "- (F - v) \<le> 1 / 2"
    using a b by linarith+
  then show ?thesis
    unfolding eq by (rule abs_leI)
qed

lemma saveImage_keeps_row:
  assumes wf: "wf_db db" and r: "r \<in> set (images db)" "fileName r = n" "originalFile r \<in> S"
    and h: "name h = n \<longrightarrow> h \<in> S"
  shows "\<exists>r' \<in> set (images (snd (saveImage now h p lp lf db))).
           fileName r' = n \<and> originalFile r' \<in> S"
proof (cases "where_fileName_equals (name h) db")
  case Nil
  then show ?thesis
    using r by (auto simp: saveImage_def table_add_def)
next
  case (Cons e es)
  then have "e \<in> set (filter (\<lambda>x. fileName x = name h) (images db))"
    by (simp add: where_fileName_equals_def)
  then have mem: "e \<in> set (images db)" and nm: "fileName e = name h"
    by auto
  have srt: "sorted_wrt (<) (map img_id (images db))"
    using wf by (simp add: wf_db_def)
  let ?d = "\<lparr>originalFile = h, processedFile = p, fileName = name h, lastPreset = lp,
             lastFormat = lf, createdAt = createdAt e, updatedAt = now\<rparr>"
  have img: "images (snd (saveImage now h p lp lf db)) =
               map (\<lambda>x. if x = e then apply_changes ?d e else x) (images db)"
    by (simp add: saveImage_def Cons table_update_def update_only_row[OF srt mem, of ?d])
  show ?thesis
  proof (cases "r = e")
    case True
    then have "name h = n"
      using nm r(2) by simp
    then have "h \<in> S"
      using h by simp
    moreover have "apply_changes ?d e \<in> set (images (snd (saveImage now h p lp lf db)))"
      unfolding img using mem by force
    ultimately show ?thesis
      using \<open>name h = n\<close> by (intro bexI[of _ "apply_changes ?d e"]) (simp_all add: apply_changes_def)
  next
    case False
    then have "r \<in> set (images (snd (saveImage now h p lp lf db)))"
      unfolding img using r(1) by force
    then show ?thesis
      using r(2,3) by blast
  qed
qed

lemma persist_loop_keeps_row:
  assumes "wf_db db" "\<exists>r \<in> set (images db). fileName r = n \<and> originalFile r \<in> S"
    and "\<forall>g \<in> set fs. name g = n \<longrightarrow> g \<in> S"
  shows "\<exists>r \<in> set (images (persist_loop env fs t db)). fileName r = n \<and> originalFile r \<in> S"
  using assms
proof (induction env fs t db rule: persist_loop.induct)
  case (1 env t db)
  then show ?case by simp
next
  case (2 env h rest t db)
  let ?db1 = "snd (saveImage (clock env t) h None None None db)"
  have h: "name h = n \<longrightarrow> h \<in> S" and rest: "\<forall>g \<in> set rest. name g = n \<longrightarrow> g \<in> S"
    using "2.prems"(3) by simp_all
  obtain r where r: "r \<in> set (images db)" "fileName r = n" "originalFile r \<in> S"
    using "2.prems"(2) by blast
  have wf1: "wf_db ?db1"
    using wf_db_saveImage[OF "2.prems"(1)] .
  have row1: "\<exists>r \<in> set (images ?db1). fileName r = n \<and> originalFile r \<in> S"
    using saveImage_keeps_row[OF "2.prems"(1) r h] .
  show ?case
  proof (cases "processImages env h")
    case None
    then show ?thesis
      using "2.IH"(1)[OF refl None wf1 row1 rest] by (simp add: Let_def)
  next
    case (Some res)
    let ?db2 = "snd (saveImage (clock env (t + 1)) h (Some res) None None ?db1)"
    obtain r1 where r1: "r1 \<in> set (images ?db1)" "fileName r1 = n" "originalFile r1 \<in> S"
      using row1 by blast
    have wf2: "wf_db ?db2"
      using wf_db_saveImage[OF wf1] .
    have row2: "\<exists>r \<in> set (images ?db2). fileName r = n \<and> originalFile r \<in> S"
      using saveImage_keeps_row[OF wf1 r1 h] .
    show ?thesis
      using "2.IH"(2)[OF refl Some wf2 row2 rest] Some by (simp add: Let_def)
  qed
qed

lemma persist_loop_saves_each:
  assumes "wf_db db" "g \<in> set fs" "\<forall>g' \<in> set fs. name g' = name g \<longrightarrow> g' \<in> S"
  shows "\<exists>r \<in> set (images (persist_loop env fs t db)).
           fileName r = name g \<and> originalFile r \<in> S"
  using assms
proof (induction env fs t db rule: persist_loop.induct)
  case (1 env t db)
  then show ?case by simp
next
  case (2 env h rest t db)
  let ?db1 = "snd (saveImage (clock env t) h None None None db)"
  have h: "name h = name g \<longrightarrow> h \<in> S"
    and rest: "\<forall>g' \<in> set rest. name g' = name g \<longrightarrow> g' \<in> S"
    using "2.prems"(3) by simp_all
  have wf1: "wf_db ?db1"
    using wf_db_saveImage[OF "2.prems"(1)] .
  show ?case
  proof (cases "processImages env h")
    case None
    show ?thesis
    proof (cases "g = h")
      case True
      have "\<exists>r \<in> set (images ?db1). fileName r = name g \<and> originalFile r \<in> S"
        using saveImage_has_row[of "clock env t" h None None None db] h True by auto
      then show ?thesis
        using persist_loop_keeps_row[OF wf1 _ rest, of env "t + 1"] None by (simp add: Let_def)
    next
      case False
      then have "g \<in> set rest"
        using "2.prems"(2) by simp
      then show ?thesis
        using "2.IH"(1)[OF refl None wf1 _ rest] None by (simp add: Let_def)
    qed
  next
    case (Some res)
    let ?db2 = "snd (saveImage (clock env (t + 1)) h (Some res) None None ?db1)"
    have wf2: "wf_db ?db2"
      using wf_db_saveImage[OF wf1] .
    show ?thesis
    proof (cases "g = h")
      case True
      have "\<exists>r \<in> set (images ?db2). fileName r = name g \<and> originalFile r \<in> S"
        using saveImage_has_row[of "clock env (t + 1)" h "Some res" None None ?db1] h True by auto
      then show ?thesis
        using persist_loop_keeps_row[OF wf2 _ rest, of env "t + 2"] Some by (simp add: Let_def)
    next
      case False
      then have "g \<in> set rest"
        using "2.prems"(2) by simp
      then show ?thesis
        using "2.IH"(2)[OF refl Some wf2 _ rest] Some by (simp add: Let_def)
    qed
  qed
qed

lemma onDrop_saves_each:
  assumes "wf_db db" "f \<in> set files"
  shows "\<exists>r \<in> set (images (onDrop env True files t db)).
           fileName r = name f \<and>
           (\<exists>f' \<in> set files. name f' = name f \<and>
                originalFile r = resizeImageForProcessing env f' 512)"
proof -
  let ?rs = "\<lambda>f. resizeImageForProcessing env f 512"
  let ?S = "?rs ` {f' \<in> set files. name f' = name f}"
  have mem: "?rs f \<in> set (map ?rs files)"
    using assms(2) by simp
  have all: "\<forall>g' \<in> set (map ?rs files). name g' = name (?rs f) \<longrightarrow> g' \<in> ?S"
    by auto
  obtain r where "r \<in> set (images (persist_loop env (map ?rs files) t db))"
    "fileName r = name (?rs f)" "originalFile r \<in> ?S"
    using persist_loop_saves_each[OF assms(1) mem all, of env t] by blast
  then show ?thesis
    by (auto simp: onDrop_def)
qed

text \<open>
  Claim C10. What \<open>onDrop\<close> saves as an original is always the resized file of an
  accepted file: every row of the store afterwards was there before or has such an
  original, and every accepted file leaves a row of its name whose original is the
  resized file of an accepted file of that name, its own when the accepted files have
  distinct names. When the model does not load, nothing is saved. The resized file of \<open>f\<close> is \<open>f\<close> itself when
  \<open>f\<close> does not load as an image, when there is no 2d context, or when \<open>toBlob\<close> yields no
  blob. Otherwise it has the name, type and modification time of \<open>f\<close>, and its bytes are
  what \<open>toBlob\<close> returned, with the type of \<open>f\<close> and quality 0.9, for a canvas that is 512
  high and \<open>Math.round (512 * width / height)\<close> wide when the image is more than 512 high,
  and of the image's own size when it is not.
\<close>

theorem upload_resized_then_saved:
  "(\<forall>r \<in> set (images (onDrop env ready files t db)).
       r \<in> set (images db) \<or>
       (\<exists>f \<in> set files. originalFile r = resizeImageForProcessing env f 512)) \<and>
   (wf_db db \<and> f \<in> set files \<longrightarrow>
      (\<exists>r \<in> set (images (onDrop env True files t db)).
          fileName r = name f \<and>
          (\<exists>f' \<in> set files. name f' = name f \<and>
               originalFile r = resizeImageForProcessing env f' 512))) \<and>
   (wf_db db \<and> f \<in> set files \<and> distinct (map name files) \<longrightarrow>
      (\<exists>r \<in> set (images (onDrop env True files t db)).
          fileName r = name f \<and> originalFile r = resizeImageForProcessing env f 512)) \<and>
   (\<exists>r \<in> set (images (onDrop env True [f] t db)).
       fileName r = name f \<and> originalFile r = resizeImageForProcessing env f 512) \<and>
   onDrop env False files t db = db \<and>
   (decode env f = None \<or> \<not> has_context env \<longrightarrow> resizeImageForProcessing env f 512 = f) \<and>
   (decode env f = Some (w, h) \<and> has_context env \<longrightarrow>
      (let c = \<lparr>canvas_width = (if h > 512 then Math_round (512 * (real w / real h)) else w),
                canvas_height = (if h > 512 then 512 else h), drawn = f\<rparr>
       in (toBlob env c (mime f) num_0_9 = None \<longrightarrow> resizeImageForProcessing env f 512 = f) \<and>
          (\<forall>b. toBlob env c (mime f) num_0_9 = Some b \<longrightarrow>
               resizeImageForProcessing env f 512 = f\<lparr>content := b\<rparr>) \<and>
          \<bar>real (Math_round (512 * (real w / real h))) - 512 * (real w / real h)\<bar> \<le> 1 / 2))"
proof -
  have saved: "\<forall>r \<in> set (images (onDrop env ready files t db)).
       r \<in> set (images db) \<or>
       (\<exists>f \<in> set files. originalFile r = resizeImageForProcessing env f 512)"
  proof
    fix r assume r: "r \<in> set (images (onDrop env ready files t db))"
    show "r \<in> set (images db) \<or>
          (\<exists>f \<in> set files. originalFile r = resizeImageForProcessing env f 512)"
    proof (cases ready)
      case False
      with r show ?thesis by (simp add: onDrop_def)
    next
      case True
      with r have "r \<in> set (images db) \<or>
          originalFile r \<in> set (map (\<lambda>f. resizeImageForProcessing env f 512) files)"
        using persist_loop_originals[of r env "map (\<lambda>f. resizeImageForProcessing env f 512) files" t db]
        by (simp add: onDrop_def)
      then show ?thesis by auto
    qed
  qed
  have one: "\<exists>r \<in> set (images (onDrop env True [f] t db)).
       fileName r = name f \<and> originalFile r = resizeImageForProcessing env f 512"
  proof -
    let ?g = "resizeImageForProcessing env f 512"
    let ?db1 = "snd (saveImage (clock env t) ?g None None None db)"
    show ?thesis
    proof (cases "processImages env ?g")
      case None
      then show ?thesis
        using saveImage_has_row[of "clock env t" ?g None None None db]
        by (auto simp: onDrop_def)
    next
      case (Some p)
      then show ?thesis
        using saveImage_has_row[of "clock env (t + 1)" ?g "Some p" None None ?db1]
        by (auto simp: onDrop_def)
    qed
  qed
  have each: "wf_db db \<and> f \<in> set files \<longrightarrow>
      (\<exists>r \<in> set (images (onDrop env True files t db)).
          fileName r = name f \<and>
          (\<exists>f' \<in> set files. name f' = name f \<and>
               originalFile r = resizeImageForProcessing env f' 512))"
    using onDrop_saves_each[of db f files env t] by blast
  have own: "wf_db db \<and> f \<in> set files \<and> distinct (map name files) \<longrightarrow>
      (\<exists>r \<in> set (images (onDrop env True files t db)).
          fileName r = name f \<and> originalFile r = resizeImageForProcessing env f 512)"
  proof
    assume a: "wf_db db \<and> f \<in> set files \<and> distinct (map name files)"
    then have inj: "inj_on name (set files)"
      by (simp add: distinct_map)
    obtain r f' where r: "r \<in> set (images (onDrop env True files t db))" "fileName r = name f"
      and f': "f' \<in> set files" "name f' = name f"
        "originalFile r = resizeImageForProcessing env f' 512"
      using onDrop_saves_each[of db f files env t] a by blast
    have "f' = f"
      using inj f'(1,2) a by (auto dest: inj_onD)
    with r f'(3) show "\<exists>r \<in> set (images (onDrop env True files t db)).
        fileName r = name f \<and> originalFile r = resizeImageForProcessing env f 512"
      by blast
  qed
  have none: "onDrop env False files t db = db"
    by (simp add: onDrop_def)
  have same: "decode env f = None \<or> \<not> has_context env \<longrightarrow> resizeImageForProcessing env f 512 = f"
    by (auto simp: resize_cases split: option.splits)
  have "0 \<le> 512 * (real w / real h)"
    by simp
  then have close: "\<bar>real (Math_round (512 * (real w / real h))) - 512 * (real w / real h)\<bar> \<le> 1 / 2"
    by (rule Math_round_close)
  have enc: "decode env f = Some (w, h) \<and> has_context env \<longrightarrow>
      (let c = \<lparr>canvas_width = (if h > 512 then Math_round (512 * (real w / real h)) else w),
                canvas_height = (if h > 512 then 512 else h), drawn = f\<rparr>
       in (toBlob env c (mime f) num_0_9 = None \<longrightarrow> resizeImageForProcessing env f 512 = f) \<and>
          (\<forall>b. toBlob env c (mime f) num_0_9 = Some b \<longrightarrow>
               resizeImageForProcessing env f 512 = f\<lparr>content := b\<rparr>) \<and>
          \<bar>real (Math_round (512 * (real w / real h))) - 512 * (real w / real h)\<bar> \<le> 1 / 2)"
    using close by (simp add: resize_cases Let_def)
  show ?thesis
    using saved each own one none same enc by blast
qed


theorem upload_resized_then_saved_witness:
  "decode example_browser file_a = Some (1000, 2000) \<and> has_context example_browser \<and>
   toBlob example_browser \<lparr>canvas_width = 256, canvas_height = 512, drawn = file_a\<rparr>
     (mime file_a) num_0_9 = Some [256, 512] \<and>
   resizeImageForProcessing example_browser file_a 512 = file_a\<lparr>content := [256, 512]\<rparr> \<and>
   wf_db empty_db \<and> file_a \<in> set [file_c, file_a] \<and> distinct (map name [file_c, file_a]) \<and>
   file_a\<lparr>content := [256, 512]\<rparr> \<in>
     originalFile ` set (images (onDrop example_browser True [file_c, file_a] 0 empty_db)) \<and>
   map originalFile (images (onDrop example_browser True [file_c, file_a] 0 empty_db)) =
     [file_c\<lparr>content := [256, 512]\<rparr>, file_a\<lparr>content := [256, 512]\<rparr>]"
proof -
  have d: "decode example_browser file_a = Some (1000, 2000)" and c: "has_context example_browser"
    by (simp_all add: example_browser_def)
  have w: "Math_round 256 = 256"
    by (simp add: Math_round_def)
  have b: "toBlob example_browser \<lparr>canvas_width = 256, canvas_height = 512, drawn = file_a\<rparr>
             (mime file_a) num_0_9 = Some [256, 512]"
    by (simp add: example_browser_def)
  have wf: "wf_db empty_db"
    by (simp add: wf_db_def empty_db_def)
  have m: "file_a \<in> set [file_c, file_a]"
    by simp
  have dn: "distinct (map name [file_c, file_a])"
    by (simp add: file_a_def file_c_def)
  note inst = upload_resized_then_saved[of example_browser True "[file_c, file_a]" 0 empty_db
      file_a 1000 2000]
  have r: "resizeImageForProcessing example_browser file_a 512 = file_a\<lparr>content := [256, 512]\<rparr>"
    using inst d c b by (simp add: w Let_def)
  have "\<exists>r \<in> set (images (onDrop example_browser True [file_c, file_a] 0 empty_db)).
          fileName r = name file_a \<and>
          originalFile r = resizeImageForProcessing example_browser file_a 512"
    using inst wf m dn by blast
  then have row: "file_a\<lparr>content := [256, 512]\<rparr> \<in>
      originalFile ` set (images (onDrop example_browser True [file_c, file_a] 0 empty_db))"
    unfolding r by force
  have rc: "resizeImageForProcessing example_browser file_c 512 = file_c\<lparr>content := [256, 512]\<rparr>"
    by (simp add: resize_cases example_browser_def Math_round_def)
  have "onDrop example_browser True [file_c, file_a] 0 empty_db =
          snd (saveImage 1 (file_a\<lparr>content := [256, 512]\<rparr>) None None None
            (snd (saveImage 0 (file_c\<lparr>content := [256, 512]\<rparr>) None None None empty_db)))"
    by (simp add: onDrop_def r rc) (simp add: example_browser_def)
  then have "map originalFile (images (onDrop example_browser True [file_c, file_a] 0 empty_db)) =
               [file_c\<lparr>content := [256, 512]\<rparr>, file_a\<lparr>content := [256, 512]\<rparr>]"
    by (simp add: saveImage_def where_fileName_equals_def empty_db_def table_add_def
        file_a_def file_c_def)
  with d c b r wf m dn row show ?thesis
    by simp
qed

end
